theory Spec2Isabelle
  imports Main "HOL-Library.Word"
begin

unbundle bit_operations_syntax

section \<open>Machine integers and byte order\<close>

text \<open>
  The queue lives in one byte slice. Go's \<open>uint32\<close> and \<open>uint64\<close> are words whose
  arithmetic wraps around; \<open>byte\<close> is an 8-bit word. \<open>encoding/binary\<close> reads and writes
  a \<open>uint32\<close> in either byte order with shifts and ors, byte by byte.
\<close>

type_synonym byte = "8 word"
type_synonym uint32 = "32 word"
type_synonym uint64 = "64 word"

datatype ByteOrder = LittleEndian | BigEndian

fun Uint32 :: "ByteOrder \<Rightarrow> byte list \<Rightarrow> uint32" where
  "Uint32 LittleEndian b =
     ucast (b ! 0) OR push_bit 8 (ucast (b ! 1)) OR push_bit 16 (ucast (b ! 2))
       OR push_bit 24 (ucast (b ! 3))"
| "Uint32 BigEndian b =
     ucast (b ! 3) OR push_bit 8 (ucast (b ! 2)) OR push_bit 16 (ucast (b ! 1))
       OR push_bit 24 (ucast (b ! 0))"

fun PutUint32 :: "ByteOrder \<Rightarrow> byte list \<Rightarrow> uint32 \<Rightarrow> byte list" where
  "PutUint32 LittleEndian b v =
     b[0 := ucast v, 1 := ucast (drop_bit 8 v), 2 := ucast (drop_bit 16 v),
       3 := ucast (drop_bit 24 v)]"
| "PutUint32 BigEndian b v =
     b[0 := ucast (drop_bit 24 v), 1 := ucast (drop_bit 16 v), 2 := ucast (drop_bit 8 v),
       3 := ucast v]"

text \<open>
  The lock words are read and written through \<open>(*uint64)(unsafe.Pointer(&s.mem[off]))\<close>:
  eight bytes of memory in the machine's own byte order.
\<close>

fun Uint64 :: "ByteOrder \<Rightarrow> byte list \<Rightarrow> uint64" where
  "Uint64 LittleEndian b = foldr (\<lambda>x acc. ucast x OR push_bit 8 acc) (take 8 b) 0"
| "Uint64 BigEndian b = foldl (\<lambda>acc x. push_bit 8 acc OR ucast x) 0 (take 8 b)"

fun PutUint64 :: "ByteOrder \<Rightarrow> uint64 \<Rightarrow> byte list" where
  "PutUint64 LittleEndian v = map (\<lambda>k. ucast (drop_bit (8 * k) v)) [0..<8]"
| "PutUint64 BigEndian v = map (\<lambda>k. ucast (drop_bit (8 * k) v)) (rev [0..<8])"

section \<open>Outcomes of a call\<close>

text \<open>
  A Go call returns, panics (an index or slice bound out of range, an integer division by
  zero, the explicit panic of the payload copy), or never returns (a spin lock that nobody
  releases, a polling loop whose condition never changes). \<open>UnsafeOutOfBounds\<close> stands
  for an 8-byte access through \<open>unsafe.Pointer\<close> that starts inside the slice and ends
  beyond its capacity: Go defines no behaviour there, the model stops.
\<close>

datatype panic =
    IndexOutOfRange
  | SliceBoundsOutOfRange
  | IntegerDivideByZero
  | MessageSize nat nat
  | UnsafeOutOfBounds

datatype 'a outcome = Returns 'a | Panics panic | Hangs

fun andThen :: "'a outcome \<Rightarrow> ('a \<Rightarrow> 'b outcome) \<Rightarrow> 'b outcome" where
  "andThen (Returns x) f = f x"
| "andThen (Panics p) f = Panics p"
| "andThen Hangs f = Hangs"

text \<open>The \<open>%\<close> of Go on unsigned integers: a run-time panic when the divisor is zero.\<close>

definition umod :: "uint32 \<Rightarrow> uint32 \<Rightarrow> uint32 outcome" where
  "umod a b = (if b = 0 then Panics IntegerDivideByZero else Returns (a mod b))"

section \<open>The segment (segment.go)\<close>

definition startMagic :: nat where "startMagic = 0"
definition endMagic :: nat where "endMagic = 8"
definition startParams :: nat where "startParams = 8"
definition startMaxLen :: nat where "startMaxLen = 8"
definition endMaxLen :: nat where "endMaxLen = 12"
definition startMsgSize :: nat where "startMsgSize = 12"
definition endMsgSize :: nat where "endMsgSize = 16"
definition endParams :: nat where "endParams = 16"
definition startHeader :: nat where "startHeader = 16"
definition startHeaderLock :: nat where "startHeaderLock = 16"
definition endHeaderLock :: nat where "endHeaderLock = 24"
definition startStartIdx :: nat where "startStartIdx = 24"
definition endStartIdx :: nat where "endStartIdx = 28"
definition startQueueLen :: nat where "startQueueLen = 28"
definition endQueueLen :: nat where "endQueueLen = 32"
definition endHeader :: nat where "endHeader = 32"
definition startQueue :: nat where "startQueue = 32"

lemmas layout =
  startMagic_def endMagic_def startParams_def startMaxLen_def endMaxLen_def
  startMsgSize_def endMsgSize_def endParams_def startHeader_def startHeaderLock_def
  endHeaderLock_def startStartIdx_def endStartIdx_def startQueueLen_def endQueueLen_def
  endHeader_def startQueue_def

definition magic :: "byte list" where
  "magic = [0x57, 0x6f, 0x72, 0x6b, 0x20, 0x69, 0x73, 0x20]"

text \<open>
  Lock and copy events of a run, in program order. The field \<open>events\<close> of the segment
  below is a history variable of the model; the Go struct has \<open>mem\<close> and \<open>byteOrder\<close>.

  The Go slice \<open>mem\<close> is a window on an array. The field \<open>mem\<close> holds the
  \<open>len(mem)\<close> bytes that an index expression \<open>mem[i]\<close> reaches, the field \<open>spare\<close>
  the bytes of the array behind them, up to \<open>cap(mem)\<close>: a slice expression
  \<open>mem[a:b]\<close> is bounded by the capacity and reaches those too. \<open>spare\<close> is empty
  unless \<open>Create\<close> has cut the slice down with \<open>mem[:totalSize]\<close>.
\<close>

datatype event =
    LockHeader
  | UnlockHeader
  | LockMsg uint32
  | UnlockMsg uint32
  | CopyIn uint32
  | CopyOut uint32

record segment =
  mem :: "byte list"
  spare :: "byte list"
  byteOrder :: ByteOrder
  events :: "event list"

definition emit :: "event \<Rightarrow> segment \<Rightarrow> segment" where
  "emit e s = s\<lparr>events := events s @ [e]\<rparr>"

text \<open>
  \<open>m[a:b]\<close> as a value, and writing a slice's bytes back at its place. \<open>backing s\<close>
  is the array of the segment from the start of \<open>mem\<close> to its capacity; \<open>setBacking\<close>
  puts an array of that size back, leaving \<open>len(mem)\<close> as it is.
\<close>

definition slice :: "byte list \<Rightarrow> nat \<Rightarrow> nat \<Rightarrow> byte list" where
  "slice m a b = take (b - a) (drop a m)"

definition splice :: "byte list \<Rightarrow> nat \<Rightarrow> byte list \<Rightarrow> byte list" where
  "splice m a bs = take a m @ bs @ drop (a + length bs) m"

definition backing :: "segment \<Rightarrow> byte list" where
  "backing s = mem s @ spare s"

definition setBacking :: "segment \<Rightarrow> byte list \<Rightarrow> segment" where
  "setBacking s m = s\<lparr>mem := take (length (mem s)) m, spare := drop (length (mem s)) m\<rparr>"

text \<open>
  A header field is read and written through \<open>s.mem[a:b]\<close>, which panics when \<open>b\<close>
  exceeds the capacity.
\<close>

definition getField :: "segment \<Rightarrow> nat \<Rightarrow> nat \<Rightarrow> uint32 outcome" where
  "getField s a b =
     (if length (backing s) < b then Panics SliceBoundsOutOfRange
      else Returns (Uint32 (byteOrder s) (slice (backing s) a b)))"

definition setField :: "segment \<Rightarrow> nat \<Rightarrow> nat \<Rightarrow> uint32 \<Rightarrow> segment outcome" where
  "setField s a b val =
     (if length (backing s) < b then Panics SliceBoundsOutOfRange
      else Returns (setBacking s (splice (backing s) a
                       (PutUint32 (byteOrder s) (slice (backing s) a b) val))))"

text \<open>\<open>setMagic\<close> writes through \<open>s.mem[byteIdx]\<close>, which is bounded by the length.\<close>

function setMagic_loop :: "byte list \<Rightarrow> nat \<Rightarrow> byte list outcome" where
  "setMagic_loop m byteIdx =
     (if byteIdx < endMagic then
        (if byteIdx < length m then setMagic_loop (m[byteIdx := magic ! byteIdx]) (byteIdx + 1)
         else Panics IndexOutOfRange)
      else Returns m)"
  by pat_completeness auto
termination
  by (relation "measure (\<lambda>(m, byteIdx). endMagic - byteIdx)") auto

declare setMagic_loop.simps [simp del]

definition setMagic :: "segment \<Rightarrow> segment outcome" where
  "setMagic s = andThen (setMagic_loop (mem s) startMagic) (\<lambda>m. Returns (s\<lparr>mem := m\<rparr>))"

definition getMaxLen :: "segment \<Rightarrow> uint32 outcome" where
  "getMaxLen s = getField s startMaxLen endMaxLen"

definition setMaxLen :: "segment \<Rightarrow> uint32 \<Rightarrow> segment outcome" where
  "setMaxLen s val = setField s startMaxLen endMaxLen val"

definition getMsgSize :: "segment \<Rightarrow> uint32 outcome" where
  "getMsgSize s = getField s startMsgSize endMsgSize"

definition setMsgSize :: "segment \<Rightarrow> uint32 \<Rightarrow> segment outcome" where
  "setMsgSize s val = setField s startMsgSize endMsgSize val"

definition getStartIdx :: "segment \<Rightarrow> uint32 outcome" where
  "getStartIdx s = getField s startStartIdx endStartIdx"

definition setStartIdx :: "segment \<Rightarrow> uint32 \<Rightarrow> segment outcome" where
  "setStartIdx s val = setField s startStartIdx endStartIdx val"

definition getQueueLen :: "segment \<Rightarrow> uint32 outcome" where
  "getQueueLen s = getField s startQueueLen endQueueLen"

definition setQueueLen :: "segment \<Rightarrow> uint32 \<Rightarrow> segment outcome" where
  "setQueueLen s val = setField s startQueueLen endQueueLen val"

text \<open>
  \<open>(*uint64)(unsafe.Pointer(&s.mem[off]))\<close>: the index expression is bounds-checked
  against the length, the eight bytes behind the pointer are not checked; they lie in the
  array when they end within the capacity.
\<close>

definition uint64Ptr :: "segment \<Rightarrow> nat \<Rightarrow> nat outcome" where
  "uint64Ptr s off =
     (if length (mem s) \<le> off then Panics IndexOutOfRange
      else if length (backing s) < off + 8 then Panics UnsafeOutOfBounds
      else Returns off)"

definition CompareAndSwapUint64 ::
    "segment \<Rightarrow> nat \<Rightarrow> uint64 \<Rightarrow> uint64 \<Rightarrow> bool \<times> segment" where
  "CompareAndSwapUint64 s ptr old new =
     (if Uint64 (byteOrder s) (slice (backing s) ptr (ptr + 8)) = old
      then (True, setBacking s (splice (backing s) ptr (PutUint64 (byteOrder s) new)))
      else (False, s))"

definition StoreUint64 :: "segment \<Rightarrow> nat \<Rightarrow> uint64 \<Rightarrow> segment" where
  "StoreUint64 s ptr val =
     setBacking s (splice (backing s) ptr (PutUint64 (byteOrder s) val))"

text \<open>
  The acquire loop of \<open>lockHeader\<close> and of \<open>lockMsg\<close>:
  \<open>for i := 0; !atomic.CompareAndSwapUint64(ptr, 0, 1); i++ { time.Sleep(...) }\<close>.
  The two differ in the length of the sleep only, which the model leaves out. Nothing but
  this run touches the memory, so a word that is not zero stays so and the loop does not
  return: its value is \<open>None\<close>.
\<close>

partial_function (option) spinLock :: "nat \<Rightarrow> segment \<Rightarrow> nat \<Rightarrow> segment option" where
  "spinLock ptr s i =
     (case CompareAndSwapUint64 s ptr 0 1 of
        (swapped, s') \<Rightarrow> if swapped then Some s' else spinLock ptr s' (i + 1))"

declare spinLock.simps [code]

definition acquire :: "nat \<Rightarrow> segment \<Rightarrow> segment outcome" where
  "acquire ptr s = (case spinLock ptr s 0 of None \<Rightarrow> Hangs | Some s' \<Rightarrow> Returns s')"

definition lockHeader :: "segment \<Rightarrow> segment outcome" where
  "lockHeader s =
     andThen (uint64Ptr s startHeaderLock) (\<lambda>lockUintPtr.
     andThen (acquire lockUintPtr s) (\<lambda>s.
     Returns (emit LockHeader s)))"

definition unlockHeader :: "segment \<Rightarrow> segment outcome" where
  "unlockHeader s =
     andThen (uint64Ptr s startHeaderLock) (\<lambda>lockUintPtr.
     Returns (emit UnlockHeader (StoreUint64 s lockUintPtr 0)))"

definition msgLockSize :: nat where "msgLockSize = 8"

definition startMsgLock :: "segment \<Rightarrow> uint32 \<Rightarrow> uint32 outcome" where
  "startMsgLock s idx =
     andThen (getMsgSize s) (\<lambda>msgSize.
     let msgTotalSize = msgSize + of_nat msgLockSize;
         start = of_nat startQueue + (idx * msgTotalSize)
     in Returns start)"

definition startEndMsgData :: "segment \<Rightarrow> uint32 \<Rightarrow> (uint32 \<times> uint32) outcome" where
  "startEndMsgData s idx =
     andThen (getMsgSize s) (\<lambda>msgSize.
     let msgTotalSize = msgSize + of_nat msgLockSize;
         start = of_nat startQueue + (idx * msgTotalSize)
     in Returns (start + of_nat msgLockSize, start + msgTotalSize))"

definition lockMsg :: "segment \<Rightarrow> uint32 \<Rightarrow> segment outcome" where
  "lockMsg s idx =
     andThen (startMsgLock s idx) (\<lambda>startLock.
     andThen (uint64Ptr s (unat startLock)) (\<lambda>lockUintPtr.
     andThen (acquire lockUintPtr s) (\<lambda>s.
     Returns (emit (LockMsg idx) s))))"

definition unlockMsg :: "segment \<Rightarrow> uint32 \<Rightarrow> segment outcome" where
  "unlockMsg s idx =
     andThen (startMsgLock s idx) (\<lambda>startLock.
     andThen (uint64Ptr s (unat startLock)) (\<lambda>lockUintPtr.
     Returns (emit (UnlockMsg idx) (StoreUint64 s lockUintPtr 0))))"

text \<open>
  The copy loops \<open>for i := start; i < end; i++\<close> over \<open>uint32\<close> indices; every index
  expression \<open>s.mem[i]\<close> is bounds-checked against the length.
\<close>

lemma unat_succ:
  fixes i stop :: uint32
  assumes "i < stop"
  shows "unat (i + 1) = unat i + 1"
proof -
  from assms have "unat i < unat stop" by (simp add: word_less_nat_alt)
  moreover have "unat stop < 2 ^ 32" using unsigned_less [of stop, where 'a = nat] by simp
  ultimately have "unat i + unat (1 :: uint32) < 2 ^ LENGTH(32)" by simp
  then have "unat (i + 1) = unat i + unat (1 :: uint32)" by (simp only: unat_add_lem)
  then show ?thesis by simp
qed

lemma unat_step_less:
  fixes i stop :: uint32
  shows "i < stop \<Longrightarrow> unat stop - unat (i + 1) < unat stop - unat i"
  by (simp add: unat_succ [of i stop] word_less_nat_alt)

function getMsgData_loop ::
    "byte list \<Rightarrow> byte list \<Rightarrow> uint32 \<Rightarrow> uint32 \<Rightarrow> uint32 \<Rightarrow> byte list outcome" where
  "getMsgData_loop m toMsg start stop i =
     (if i < stop then
        (if length m \<le> unat i then Panics IndexOutOfRange
         else if length toMsg \<le> unat (i - start) then Panics IndexOutOfRange
         else getMsgData_loop m (toMsg[unat (i - start) := m ! unat i]) start stop (i + 1))
      else Returns toMsg)"
  by pat_completeness auto
termination
  by (relation "measure (\<lambda>(m, toMsg, start, stop, i). unat stop - unat i)")
     (auto simp: unat_step_less)

declare getMsgData_loop.simps [simp del]

function setMsgData_loop ::
    "byte list \<Rightarrow> byte list \<Rightarrow> uint32 \<Rightarrow> uint32 \<Rightarrow> uint32 \<Rightarrow> byte list outcome" where
  "setMsgData_loop m data start stop i =
     (if i < stop then
        (if length data \<le> unat (i - start) then Panics IndexOutOfRange
         else if length m \<le> unat i then Panics IndexOutOfRange
         else setMsgData_loop (m[unat i := data ! unat (i - start)]) data start stop (i + 1))
      else Returns m)"
  by pat_completeness auto
termination
  by (relation "measure (\<lambda>(m, data, start, stop, i). unat stop - unat i)")
     (auto simp: unat_step_less)

declare setMsgData_loop.simps [simp del]

definition getMsgData :: "segment \<Rightarrow> uint32 \<Rightarrow> byte list \<Rightarrow> (byte list \<times> segment) outcome" where
  "getMsgData s idx toMsg =
     andThen (startEndMsgData s idx) (\<lambda>(start, stop).
     if length toMsg \<noteq> unat (stop - start)
     then Panics (MessageSize (unat (stop - start)) (length toMsg))
     else andThen (getMsgData_loop (mem s) toMsg start stop start) (\<lambda>toMsg.
          Returns (toMsg, emit (CopyOut idx) s)))"

definition setMsgData :: "segment \<Rightarrow> uint32 \<Rightarrow> byte list \<Rightarrow> segment outcome" where
  "setMsgData s idx data =
     andThen (startEndMsgData s idx) (\<lambda>(start, stop).
     if length data \<noteq> unat (stop - start)
     then Panics (MessageSize (unat (stop - start)) (length data))
     else andThen (setMsgData_loop (mem s) data start stop start) (\<lambda>m.
          Returns (emit (CopyIn idx) (s\<lparr>mem := m\<rparr>))))"

section \<open>Errors (errors.go)\<close>

text \<open>
  The error numbers of package \<open>unix\<close> that the code distinguishes, the sentinel errors
  of the package, and \<open>fmt.Errorf("%s: %w", op, err)\<close> as a constructor.
\<close>

datatype errno =
  ENOENT | EACCES | EINVAL | EEXIST | ENFILE | ENOMEM | ENOSPC | EIDRM | OtherErrno nat

datatype error =
    ErrInvalidMagic | ErrNoFreeKeys | ErrNotExist | ErrNoAccess | ErrTooSmall
  | ErrAlreadyExist | ErrInvalidSize | ErrTooManyFiles | ErrNoMem | ErrNoIDs
  | ErrRemovedID | ErrInvalidAddrOrID | ErrNotAttached
  | Errno errno
  | Wrap string error

fun wrapErrShmGet :: "errno \<Rightarrow> bool \<Rightarrow> error" where
  "wrapErrShmGet err ipcCreat =
     (let op = (if ipcCreat then ''create shared memory'' else ''open shared memory'')
      in case err of
           ENOENT \<Rightarrow> Wrap op ErrNotExist
         | EACCES \<Rightarrow> Wrap op ErrNoAccess
         | EINVAL \<Rightarrow> (if ipcCreat then Wrap op ErrInvalidSize else Wrap op ErrTooSmall)
         | EEXIST \<Rightarrow> Wrap op ErrAlreadyExist
         | ENFILE \<Rightarrow> Wrap op ErrTooManyFiles
         | ENOMEM \<Rightarrow> Wrap op ErrNoMem
         | ENOSPC \<Rightarrow> Wrap op ErrNoIDs
         | _ \<Rightarrow> Wrap (op @ '': system error'') (Errno err))"

fun wrapErrShmAttach :: "errno \<Rightarrow> error" where
  "wrapErrShmAttach err =
     (let op = ''attach to shared memory''
      in case err of
           EACCES \<Rightarrow> Wrap op ErrNoAccess
         | EIDRM \<Rightarrow> Wrap op ErrRemovedID
         | EINVAL \<Rightarrow> Wrap op ErrInvalidAddrOrID
         | ENOMEM \<Rightarrow> Wrap op ErrNoMem
         | _ \<Rightarrow> Wrap (op @ '': system error'') (Errno err))"

fun wrapErrShmDelete :: "errno \<Rightarrow> error" where
  "wrapErrShmDelete err =
     (let op = ''delete shared memory''
      in case err of
           EIDRM \<Rightarrow> Wrap op ErrRemovedID
         | _ \<Rightarrow> Wrap (op @ '': system error'') (Errno err))"

section \<open>The queue (queue.go)\<close>

text \<open>
  The System V calls of \<open>golang.org/x/sys/unix\<close> and the byte order of the machine are
  outside the repository: the model takes them as a parameter. \<open>SysvShmGet key size flag\<close>
  gives an identifier or an error number, \<open>SysvShmAttach id\<close> the bytes of the segment
  (a slice whose length and capacity are the size of the segment), \<open>SysvShmCtl_RMID id\<close>
  marks it for removal.
\<close>

record host =
  SysvShmGet :: "int \<Rightarrow> int \<Rightarrow> int \<Rightarrow> errno + int"
  SysvShmAttach :: "int \<Rightarrow> errno + byte list"
  SysvShmCtl_RMID :: "int \<Rightarrow> errno + int"
  native :: ByteOrder

definition IPC_CREAT :: int where "IPC_CREAT = 512"
definition IPC_EXCL :: int where "IPC_EXCL = 1024"

definition magicSize :: nat where "magicSize = 8"
definition paramsSize :: nat where "paramsSize = 8"
definition headerSize :: nat where "headerSize = 16"
definition access :: int where "access = 384"

lemmas sizes = magicSize_def paramsSize_def headerSize_def msgLockSize_def

record Queue =
  key :: int
  id :: int
  seg :: segment

text \<open>
  \<open>detectByteOrder\<close> stores \<open>0xABCD\<close> through a \<open>uint16\<close> pointer and looks at the
  two bytes.
\<close>

definition detectByteOrder :: "host \<Rightarrow> ByteOrder" where
  "detectByteOrder h =
     (let buf = (case native h of
                   LittleEndian \<Rightarrow> [0xCD, 0xAB :: byte]
                 | BigEndian \<Rightarrow> [0xAB, 0xCD])
      in if buf = [0xCD, 0xAB] then LittleEndian
         else if buf = [0xAB, 0xCD] then BigEndian
         else BigEndian)"

text \<open>
  \<open>newSegment\<close> takes a slice: its bytes up to the length, and those from there to the
  capacity.
\<close>

definition newSegment :: "host \<Rightarrow> byte list \<Rightarrow> byte list \<Rightarrow> segment" where
  "newSegment h m sp = \<lparr>mem = m, spare = sp, byteOrder = detectByteOrder h, events = []\<rparr>"

definition newQueue :: "int \<Rightarrow> int \<Rightarrow> segment \<Rightarrow> Queue" where
  "newQueue k i s = \<lparr>key = k, id = i, seg = s\<rparr>"

text \<open>
  The arithmetic of \<open>totalShmSize\<close> is done in \<open>uint32\<close>; the result is converted to
  \<open>int\<close> (64 bits) afterwards.
\<close>

definition totalShmSize :: "uint32 \<Rightarrow> uint32 \<Rightarrow> int" where
  "totalShmSize msgSize maxLen =
     uint (of_nat magicSize + of_nat paramsSize + of_nat headerSize
            + ((msgSize + of_nat msgLockSize) * maxLen) :: uint32)"

definition deleteShm :: "host \<Rightarrow> int \<Rightarrow> error option" where
  "deleteShm h k =
     (case SysvShmGet h k 0 access of
        Inl err \<Rightarrow> Some (wrapErrShmGet err False)
      | Inr i \<Rightarrow>
          (case SysvShmCtl_RMID h i of
             Inl err \<Rightarrow> Some (wrapErrShmDelete err)
           | Inr _ \<Rightarrow> None))"

text \<open>
  \<open>Create\<close>. The first \<open>case\<close> is the \<open>if err == unix.ENOENT ... else if err == unix.EINVAL\<close>
  chain: it gives the flag \<open>create\<close> and the result of the last \<open>SysvShmGet\<close>, or the
  error of \<open>deleteShm\<close>. \<open>mem = mem[:totalSize]\<close> panics when \<open>totalSize\<close> exceeds the
  capacity; it shortens the length and keeps the capacity.
\<close>

definition Create :: "host \<Rightarrow> int \<Rightarrow> uint32 \<Rightarrow> uint32 \<Rightarrow> (error + Queue) outcome" where
  "Create h k msgSizeWords maxLen =
     (let msgSize = msgSizeWords * 8;
          totalSize = totalShmSize msgSize maxLen;
          first = SysvShmGet h k totalSize access;
          got =
            (case first of
               Inl ENOENT \<Rightarrow>
                 Inr (True, SysvShmGet h k totalSize (access OR IPC_CREAT OR IPC_EXCL))
             | Inl EINVAL \<Rightarrow>
                 (case deleteShm h k of
                    Some err \<Rightarrow> Inl err
                  | None \<Rightarrow>
                      Inr (True, SysvShmGet h k totalSize (access OR IPC_CREAT OR IPC_EXCL)))
             | _ \<Rightarrow> Inr (False, first))
      in case got of
           Inl err \<Rightarrow> Returns (Inl err)
         | Inr (create, Inl err) \<Rightarrow> Returns (Inl (wrapErrShmGet err create))
         | Inr (create, Inr i) \<Rightarrow>
             (case SysvShmAttach h i of
                Inl err \<Rightarrow> Returns (Inl (wrapErrShmAttach err))
              | Inr m \<Rightarrow>
                  andThen (if \<not> create
                           then (if int (length m) < totalSize then Panics SliceBoundsOutOfRange
                                 else Returns (take (nat totalSize) m, drop (nat totalSize) m))
                           else Returns (m, [])) (\<lambda>(m, sp).
                  andThen (setMagic (newSegment h m sp)) (\<lambda>s.
                  andThen (setMsgSize s msgSize) (\<lambda>s.
                  andThen (setMaxLen s maxLen) (\<lambda>s.
                  andThen (setStartIdx s 0) (\<lambda>s.
                  andThen (setQueueLen s 0) (\<lambda>s.
                  Returns (Inr (newQueue k i s))))))))))"

definition EnqueueShift :: "Queue \<Rightarrow> byte list \<Rightarrow> Queue outcome" where
  "EnqueueShift q msg =
     andThen (lockHeader (seg q)) (\<lambda>s.
     andThen (getQueueLen s) (\<lambda>curLen.
     andThen (getMaxLen s) (\<lambda>maxLen.
     andThen (getStartIdx s) (\<lambda>startIdx.
     andThen (umod (startIdx + curLen) maxLen) (\<lambda>msgIdx.
     andThen (if curLen < maxLen then setQueueLen s (curLen + 1)
              else andThen (umod (startIdx + 1) maxLen) (\<lambda>startIdx.
                   setStartIdx s startIdx)) (\<lambda>s.
     andThen (lockMsg s msgIdx) (\<lambda>s.
     andThen (setMsgData s msgIdx msg) (\<lambda>s.
     andThen (unlockHeader s) (\<lambda>s.
     andThen (unlockMsg s msgIdx) (\<lambda>s.
     Returns (q\<lparr>seg := s\<rparr>)))))))))))"

definition EnqueueTry :: "Queue \<Rightarrow> byte list \<Rightarrow> (bool \<times> Queue) outcome" where
  "EnqueueTry q msg =
     andThen (lockHeader (seg q)) (\<lambda>s.
     andThen (getQueueLen s) (\<lambda>curLen.
     andThen (getMaxLen s) (\<lambda>maxLen.
     if curLen \<ge> maxLen then
       andThen (unlockHeader s) (\<lambda>s.
       Returns (False, q\<lparr>seg := s\<rparr>))
     else
       andThen (setQueueLen s (curLen + 1)) (\<lambda>s.
       andThen (getStartIdx s) (\<lambda>startIdx.
       andThen (umod (startIdx + curLen) maxLen) (\<lambda>msgIdx.
       andThen (lockMsg s msgIdx) (\<lambda>s.
       andThen (setMsgData s msgIdx msg) (\<lambda>s.
       andThen (unlockHeader s) (\<lambda>s.
       andThen (unlockMsg s msgIdx) (\<lambda>s.
       Returns (True, q\<lparr>seg := s\<rparr>)))))))))))"

definition DequeueTry :: "Queue \<Rightarrow> byte list \<Rightarrow> (bool \<times> byte list \<times> Queue) outcome" where
  "DequeueTry q toMsg =
     andThen (lockHeader (seg q)) (\<lambda>s.
     andThen (getQueueLen s) (\<lambda>curLen.
     if curLen = 0 then
       andThen (unlockHeader s) (\<lambda>s.
       Returns (False, toMsg, q\<lparr>seg := s\<rparr>))
     else
       andThen (setQueueLen s (curLen - 1)) (\<lambda>s.
       andThen (getStartIdx s) (\<lambda>startIdx.
       andThen (getMaxLen s) (\<lambda>maxLen.
       andThen (umod (startIdx + 1) maxLen) (\<lambda>newStart.
       andThen (setStartIdx s newStart) (\<lambda>s.
       andThen (lockMsg s startIdx) (\<lambda>s.
       andThen (unlockHeader s) (\<lambda>s.
       andThen (getMsgData s startIdx toMsg) (\<lambda>(toMsg, s).
       andThen (unlockMsg s startIdx) (\<lambda>s.
       Returns (True, toMsg, q\<lparr>seg := s\<rparr>))))))))))))"

text \<open>
  The blocking operations poll in a loop \<open>for i := 0; ; i++\<close> that may run forever.
  A context is modelled by what its \<open>Done\<close> channel shows at the \<open>i\<close>-th poll and by
  the error \<open>ctx.Err()\<close> gives once it is closed; \<open>time.Sleep\<close> is left out.
  \<open>waitOn\<close> sequences a call inside such a loop: a panic or a hang of the call ends it.
\<close>

datatype ctxError = Canceled | DeadlineExceeded

record Context =
  Done :: "nat \<Rightarrow> bool"
  Err :: ctxError

definition waitOn :: "'a outcome \<Rightarrow> ('a \<Rightarrow> 'b outcome option) \<Rightarrow> 'b outcome option" where
  "waitOn r f =
     (case r of Returns x \<Rightarrow> f x | Panics p \<Rightarrow> Some (Panics p) | Hangs \<Rightarrow> Some Hangs)"

lemma waitOn_mono [partial_function_mono]:
  assumes "\<And>x. mono_option (\<lambda>f. g x f)"
  shows "mono_option (\<lambda>f. waitOn r (\<lambda>x. g x f))"
  using assms by (cases r) (simp_all add: waitOn_def option.const_mono)

text \<open>
  The loop of \<open>EnqueueBlock\<close>: it ends with the error of the context, or with the header
  locked and the length and capacity read under the lock.
\<close>

partial_function (option) EnqueueBlock_loop ::
    "Context \<Rightarrow> segment \<Rightarrow> nat
       \<Rightarrow> (ctxError \<times> segment + segment \<times> uint32 \<times> uint32) outcome option" where
  "EnqueueBlock_loop ctx s i =
     (if Done ctx i then Some (Returns (Inl (Err ctx, s)))
      else
        waitOn (getQueueLen s) (\<lambda>curLen.
        waitOn (getMaxLen s) (\<lambda>maxLen.
        if curLen < maxLen then
          waitOn (lockHeader s) (\<lambda>s.
          waitOn (getQueueLen s) (\<lambda>curLen.
          waitOn (getMaxLen s) (\<lambda>maxLen.
          if curLen \<ge> maxLen then
            waitOn (unlockHeader s) (\<lambda>s. EnqueueBlock_loop ctx s (i + 1))
          else Some (Returns (Inr (s, curLen, maxLen))))))
        else EnqueueBlock_loop ctx s (i + 1))))"

declare EnqueueBlock_loop.simps [code]

definition EnqueueBlock ::
    "Context \<Rightarrow> Queue \<Rightarrow> byte list \<Rightarrow> (ctxError option \<times> Queue) outcome" where
  "EnqueueBlock ctx q msg =
     (case EnqueueBlock_loop ctx (seg q) 0 of
        None \<Rightarrow> Hangs
      | Some r \<Rightarrow>
          andThen r (\<lambda>res.
          case res of
            Inl (err, s) \<Rightarrow> Returns (Some err, q\<lparr>seg := s\<rparr>)
          | Inr (s, curLen, maxLen) \<Rightarrow>
              andThen (setQueueLen s (curLen + 1)) (\<lambda>s.
              andThen (getStartIdx s) (\<lambda>startIdx.
              andThen (umod (startIdx + curLen) maxLen) (\<lambda>msgIdx.
              andThen (lockMsg s msgIdx) (\<lambda>s.
              andThen (setMsgData s msgIdx msg) (\<lambda>s.
              andThen (unlockHeader s) (\<lambda>s.
              andThen (unlockMsg s msgIdx) (\<lambda>s.
              Returns (None, q\<lparr>seg := s\<rparr>))))))))))"

partial_function (option) DequeueBlock_loop ::
    "Context \<Rightarrow> segment \<Rightarrow> nat \<Rightarrow> (ctxError \<times> segment + segment \<times> uint32) outcome option" where
  "DequeueBlock_loop ctx s i =
     (if Done ctx i then Some (Returns (Inl (Err ctx, s)))
      else
        waitOn (getQueueLen s) (\<lambda>curLen.
        if curLen > 0 then
          waitOn (lockHeader s) (\<lambda>s.
          waitOn (getQueueLen s) (\<lambda>curLen.
          if curLen = 0 then
            waitOn (unlockHeader s) (\<lambda>s. DequeueBlock_loop ctx s (i + 1))
          else Some (Returns (Inr (s, curLen)))))
        else DequeueBlock_loop ctx s (i + 1)))"

declare DequeueBlock_loop.simps [code]

definition DequeueBlock ::
    "Context \<Rightarrow> Queue \<Rightarrow> byte list \<Rightarrow> (ctxError option \<times> byte list \<times> Queue) outcome" where
  "DequeueBlock ctx q toMsg =
     (case DequeueBlock_loop ctx (seg q) 0 of
        None \<Rightarrow> Hangs
      | Some r \<Rightarrow>
          andThen r (\<lambda>res.
          case res of
            Inl (err, s) \<Rightarrow> Returns (Some err, toMsg, q\<lparr>seg := s\<rparr>)
          | Inr (s, curLen) \<Rightarrow>
              andThen (setQueueLen s (curLen - 1)) (\<lambda>s.
              andThen (getStartIdx s) (\<lambda>startIdx.
              andThen (getMaxLen s) (\<lambda>maxLen.
              andThen (umod (startIdx + 1) maxLen) (\<lambda>newStart.
              andThen (setStartIdx s newStart) (\<lambda>s.
              andThen (lockMsg s startIdx) (\<lambda>s.
              andThen (unlockHeader s) (\<lambda>s.
              andThen (getMsgData s startIdx toMsg) (\<lambda>(toMsg, s).
              andThen (unlockMsg s startIdx) (\<lambda>s.
              Returns (None, toMsg, q\<lparr>seg := s\<rparr>))))))))))))"

section \<open>Bytes, slices and words\<close>

lemma le_roundtrip:
  fixes v :: uint32
  shows "ucast (ucast v :: byte) OR push_bit 8 (ucast (ucast (drop_bit 8 v) :: byte))
      OR push_bit 16 (ucast (ucast (drop_bit 16 v) :: byte))
      OR push_bit 24 (ucast (ucast (drop_bit 24 v) :: byte)) = v"
proof (rule bit_word_eqI)
  fix n
  assume "n < LENGTH(32)"
  then show "bit (ucast (ucast v :: byte) OR push_bit 8 (ucast (ucast (drop_bit 8 v) :: byte))
      OR push_bit 16 (ucast (ucast (drop_bit 16 v) :: byte))
      OR push_bit 24 (ucast (ucast (drop_bit 24 v) :: byte)) :: uint32) n = bit v n"
    by (cases "n < 8"; cases "n < 16"; cases "n < 24") (auto simp add: bit_simps)
qed

lemma Uint32_PutUint32: "length b = 4 \<Longrightarrow> Uint32 bo (PutUint32 bo b v) = v"
  by (cases bo) (simp_all add: le_roundtrip or.commute or.left_commute)

lemma length_PutUint32 [simp]: "length (PutUint32 bo b v) = length b"
  by (cases bo) simp_all

lemma length_slice [simp]: "b \<le> length m \<Longrightarrow> length (slice m a b) = b - a"
  by (simp add: slice_def)

lemma length_splice [simp]: "a + length bs \<le> length m \<Longrightarrow> length (splice m a bs) = length m"
  by (simp add: splice_def)

lemma nth_splice:
  "a + length bs \<le> length m \<Longrightarrow> i < length m \<Longrightarrow>
   splice m a bs ! i = (if a \<le> i \<and> i < a + length bs then bs ! (i - a) else m ! i)"
  by (auto simp add: splice_def nth_append)

lemma nth_slice: "b \<le> length m \<Longrightarrow> i < b - a \<Longrightarrow> slice m a b ! i = m ! (a + i)"
  by (simp add: slice_def)

lemma slice_splice_same:
  "a + length bs \<le> length m \<Longrightarrow> slice (splice m a bs) a (a + length bs) = bs"
  by (simp add: slice_def splice_def)

lemma slice_splice_other:
  "a + length bs \<le> length m \<Longrightarrow> d \<le> length m \<Longrightarrow> d \<le> a \<or> a + length bs \<le> c \<Longrightarrow>
   slice (splice m a bs) c d = slice m c d"
  by (rule nth_equalityI) (auto simp add: nth_slice nth_splice)

lemma splice_slice_id: "b \<le> length m \<Longrightarrow> a \<le> b \<Longrightarrow> splice m a (slice m a b) = m"
  by (rule nth_equalityI) (auto simp add: nth_slice nth_splice)

lemma splice_splice_same:
  "length xs = length ys \<Longrightarrow> a + length xs \<le> length m \<Longrightarrow>
   splice (splice m a xs) a ys = splice m a ys"
  by (rule nth_equalityI) (auto simp add: nth_splice)

lemma splice_commute:
  "a + length xs \<le> c \<or> c + length ys \<le> a \<Longrightarrow> a + length xs \<le> length m \<Longrightarrow> c + length ys \<le> length m \<Longrightarrow>
   splice (splice m a xs) c ys = splice (splice m c ys) a xs"
  by (rule nth_equalityI) (auto simp add: nth_splice)


lemma slice_append_left: "b \<le> length m \<Longrightarrow> slice (m @ sp) a b = slice m a b"
  by (simp add: slice_def)

lemma splice_append_left:
  "a + length bs \<le> length m \<Longrightarrow> splice (m @ sp) a bs = splice m a bs @ sp"
  by (simp add: splice_def)

lemma slice_take: "b \<le> n \<Longrightarrow> slice (take n m) a b = slice m a b"
  by (simp add: slice_def drop_take min_def)

lemma length_PutUint64 [simp]: "length (PutUint64 bo v) = 8"
  by (cases bo) simp_all

lemma PutUint64_0: "PutUint64 bo 0 = replicate 8 0"
  by (cases bo) (simp_all add: upt_rec numeral_eq_Suc)

lemma Uint64_zero: "Uint64 bo (replicate 8 0) = 0"
  by (cases bo) (simp_all add: numeral_eq_Suc)

lemma Uint64_PutUint64_1: "Uint64 bo (PutUint64 bo 1) = 1"
  apply (cases bo) 
  apply (simp_all add: upt_rec )
  done

lemma Uint64_eq_0:
  assumes "length b = 8" "Uint64 bo b = 0"
  shows "b = replicate 8 0"
proof -
  from assms(1) obtain b0 b1 b2 b3 b4 b5 b6 b7 where b: "b = [b0,b1,b2,b3,b4,b5,b6,b7]"
    by (auto simp add: length_Suc_conv numeral_eq_Suc)
  have z: "\<And>n. \<not> bit (Uint64 bo b) n" using assms(2) by simp
  have "b0 = 0 \<and> b1 = 0 \<and> b2 = 0 \<and> b3 = 0 \<and> b4 = 0 \<and> b5 = 0 \<and> b6 = 0 \<and> b7 = 0"
  proof (cases bo)
    case LittleEndian
    have "b0 = 0"
    proof (rule bit_word_eqI)
      fix j assume "j < LENGTH(8)"
      then show "bit b0 j = bit (0 :: byte) j"
        using z [of "0 + j"] by (simp add: b LittleEndian bit_simps)
    qed
    moreover
    have "b1 = 0"
    proof (rule bit_word_eqI)
      fix j assume "j < LENGTH(8)"
      then show "bit b1 j = bit (0 :: byte) j"
        using z [of "8 + j"] by (simp add: b LittleEndian bit_simps)
    qed
    moreover
    have "b2 = 0"
    proof (rule bit_word_eqI)
      fix j assume "j < LENGTH(8)"
      then show "bit b2 j = bit (0 :: byte) j"
        using z [of "16 + j"] by (simp add: b LittleEndian bit_simps)
    qed
    moreover
    have "b3 = 0"
    proof (rule bit_word_eqI)
      fix j assume "j < LENGTH(8)"
      then show "bit b3 j = bit (0 :: byte) j"
        using z [of "24 + j"] by (simp add: b LittleEndian bit_simps)
    qed
    moreover
    have "b4 = 0"
    proof (rule bit_word_eqI)
      fix j assume "j < LENGTH(8)"
      then show "bit b4 j = bit (0 :: byte) j"
        using z [of "32 + j"] by (simp add: b LittleEndian bit_simps)
    qed
    moreover
    have "b5 = 0"
    proof (rule bit_word_eqI)
      fix j assume "j < LENGTH(8)"
      then show "bit b5 j = bit (0 :: byte) j"
        using z [of "40 + j"] by (simp add: b LittleEndian bit_simps)
    qed
    moreover
    have "b6 = 0"
    proof (rule bit_word_eqI)
      fix j assume "j < LENGTH(8)"
      then show "bit b6 j = bit (0 :: byte) j"
        using z [of "48 + j"] by (simp add: b LittleEndian bit_simps)
    qed
    moreover
    have "b7 = 0"
    proof (rule bit_word_eqI)
      fix j assume "j < LENGTH(8)"
      then show "bit b7 j = bit (0 :: byte) j"
        using z [of "56 + j"] by (simp add: b LittleEndian bit_simps)
    qed
    ultimately show ?thesis by simp
  next
    case BigEndian
    have "b0 = 0"
    proof (rule bit_word_eqI)
      fix j assume "j < LENGTH(8)"
      then show "bit b0 j = bit (0 :: byte) j"
        using z [of "56 + j"] by (simp add: b BigEndian bit_simps)
    qed
    moreover
    have "b1 = 0"
    proof (rule bit_word_eqI)
      fix j assume "j < LENGTH(8)"
      then show "bit b1 j = bit (0 :: byte) j"
        using z [of "48 + j"] by (simp add: b BigEndian bit_simps)
    qed
    moreover
    have "b2 = 0"
    proof (rule bit_word_eqI)
      fix j assume "j < LENGTH(8)"
      then show "bit b2 j = bit (0 :: byte) j"
        using z [of "40 + j"] by (simp add: b BigEndian bit_simps)
    qed
    moreover
    have "b3 = 0"
    proof (rule bit_word_eqI)
      fix j assume "j < LENGTH(8)"
      then show "bit b3 j = bit (0 :: byte) j"
        using z [of "32 + j"] by (simp add: b BigEndian bit_simps)
    qed
    moreover
    have "b4 = 0"
    proof (rule bit_word_eqI)
      fix j assume "j < LENGTH(8)"
      then show "bit b4 j = bit (0 :: byte) j"
        using z [of "24 + j"] by (simp add: b BigEndian bit_simps)
    qed
    moreover
    have "b5 = 0"
    proof (rule bit_word_eqI)
      fix j assume "j < LENGTH(8)"
      then show "bit b5 j = bit (0 :: byte) j"
        using z [of "16 + j"] by (simp add: b BigEndian bit_simps)
    qed
    moreover
    have "b6 = 0"
    proof (rule bit_word_eqI)
      fix j assume "j < LENGTH(8)"
      then show "bit b6 j = bit (0 :: byte) j"
        using z [of "8 + j"] by (simp add: b BigEndian bit_simps)
    qed
    moreover
    have "b7 = 0"
    proof (rule bit_word_eqI)
      fix j assume "j < LENGTH(8)"
      then show "bit b7 j = bit (0 :: byte) j"
        using z [of "0 + j"] by (simp add: b BigEndian bit_simps)
    qed
    ultimately show ?thesis by simp
  qed
  then show ?thesis by (simp add: b numeral_eq_Suc)
qed

section \<open>Header fields\<close>

text \<open>
  \<open>rd32\<close> and \<open>wr32\<close> are what a getter returns and what a setter leaves behind when
  the segment holds the field; \<open>enc32\<close> is the four bytes \<open>PutUint32\<close> writes.
\<close>

definition enc32 :: "ByteOrder \<Rightarrow> uint32 \<Rightarrow> byte list" where
  "enc32 bo v = PutUint32 bo (replicate 4 0) v"

lemma PutUint32_enc32: "length b = 4 \<Longrightarrow> PutUint32 bo b v = enc32 bo v"
  by (cases bo) (auto simp add: enc32_def length_Suc_conv numeral_eq_Suc)

lemma length_enc32 [simp]: "length (enc32 bo v) = 4"
  by (simp add: enc32_def)

lemma Uint32_enc32 [simp]: "Uint32 bo (enc32 bo v) = v"
  by (simp add: enc32_def Uint32_PutUint32)

definition rd32 :: "segment \<Rightarrow> nat \<Rightarrow> uint32" where
  "rd32 s a = Uint32 (byteOrder s) (slice (mem s) a (a + 4))"

definition wr32 :: "segment \<Rightarrow> nat \<Rightarrow> uint32 \<Rightarrow> segment" where
  "wr32 s a v = s\<lparr>mem := splice (mem s) a (enc32 (byteOrder s) v)\<rparr>"

text \<open>Within the length of \<open>mem\<close>, the array is \<open>mem\<close>.\<close>

lemma length_backing [simp]: "length (backing s) = length (mem s) + length (spare s)"
  by (simp add: backing_def)

lemma setBacking_simps [simp]:
  "byteOrder (setBacking s m) = byteOrder s" "events (setBacking s m) = events s"
  "mem (setBacking s m) = take (length (mem s)) m"
  "spare (setBacking s m) = drop (length (mem s)) m"
  by (simp_all add: setBacking_def)

lemma backing_setBacking [simp]: "backing (setBacking s m) = m"
  by (simp add: backing_def)

lemma slice_backing: "b \<le> length (mem s) \<Longrightarrow> slice (backing s) a b = slice (mem s) a b"
  by (simp add: backing_def slice_append_left)

lemma setBacking_mem:
  "a + length bs \<le> length (mem s) \<Longrightarrow>
   setBacking s (splice (backing s) a bs) = s\<lparr>mem := splice (mem s) a bs\<rparr>"
  by (simp add: setBacking_def backing_def splice_append_left)

lemma getField_eq: "b \<le> length (mem s) \<Longrightarrow> b = a + 4 \<Longrightarrow> getField s a b = Returns (rd32 s a)"
  by (simp add: getField_def rd32_def slice_backing)

lemma setField_eq: "b \<le> length (mem s) \<Longrightarrow> b = a + 4 \<Longrightarrow> setField s a b v = Returns (wr32 s a v)"
  by (simp add: setField_def wr32_def PutUint32_enc32 slice_backing setBacking_mem)

lemma wr32_simps [simp]:
  "byteOrder (wr32 s a v) = byteOrder s"
  "events (wr32 s a v) = events s"
  "spare (wr32 s a v) = spare s"
  "a + 4 \<le> length (mem s) \<Longrightarrow> length (mem (wr32 s a v)) = length (mem s)"
  by (simp_all add: wr32_def)

lemma rd32_wr32_same [simp]: "a + 4 \<le> length (mem s) \<Longrightarrow> rd32 (wr32 s a v) a = v"
  using slice_splice_same [of a "enc32 (byteOrder s) v" "mem s"]
  by (simp add: rd32_def wr32_def)

lemma rd32_wr32_other [simp]:
  "a + 4 \<le> length (mem s) \<Longrightarrow> c + 4 \<le> length (mem s) \<Longrightarrow> c + 4 \<le> a \<or> a + 4 \<le> c \<Longrightarrow>
   rd32 (wr32 s a v) c = rd32 s c"
  using slice_splice_other [of a "enc32 (byteOrder s) v" "mem s" "c + 4" c]
  by (simp add: rd32_def wr32_def)

lemma nth_wr32:
  "a + 4 \<le> length (mem s) \<Longrightarrow> i < length (mem s) \<Longrightarrow> \<not> (a \<le> i \<and> i < a + 4) \<Longrightarrow>
   mem (wr32 s a v) ! i = mem s ! i"
  by (auto simp add: wr32_def nth_splice)

text \<open>\<open>touchesOnly s s' a b\<close>: the two memories differ at most at the offsets \<open>a..<b\<close>.\<close>

definition touchesOnly :: "segment \<Rightarrow> segment \<Rightarrow> nat \<Rightarrow> nat \<Rightarrow> bool" where
  "touchesOnly s s' a b \<longleftrightarrow>
     length (mem s') = length (mem s) \<and> spare s' = spare s \<and> byteOrder s' = byteOrder s \<and>
     (\<forall>i < length (mem s). \<not> (a \<le> i \<and> i < b) \<longrightarrow> mem s' ! i = mem s ! i)"

lemma touchesOnly_wr32:
  "a + 4 \<le> length (mem s) \<Longrightarrow> touchesOnly s (wr32 s a v) a (a + 4)"
  by (simp add: touchesOnly_def nth_wr32)

lemmas header_getters = getMaxLen_def getMsgSize_def getStartIdx_def getQueueLen_def
lemmas header_setters = setMaxLen_def setMsgSize_def setStartIdx_def setQueueLen_def

text \<open>
  Claim C10. On a segment that holds the 32 header bytes, each of \<open>setMaxLen\<close>,
  \<open>setMsgSize\<close>, \<open>setStartIdx\<close> and \<open>setQueueLen\<close> returns, the matching getter then
  returns the value written, and no byte outside the four bytes of the field changes: the
  magic, the other three fields, the header lock word and every byte of every slot keep
  their value, and so do the other three getters.
\<close>

theorem header_setters_frame:
  assumes "endHeader \<le> length (mem s)"
  shows "(\<exists>s'. setMaxLen s v = Returns s' \<and> getMaxLen s' = Returns v
            \<and> touchesOnly s s' startMaxLen endMaxLen
            \<and> getMsgSize s' = getMsgSize s \<and> getStartIdx s' = getStartIdx s
            \<and> getQueueLen s' = getQueueLen s)
       \<and> (\<exists>s'. setMsgSize s v = Returns s' \<and> getMsgSize s' = Returns v
            \<and> touchesOnly s s' startMsgSize endMsgSize
            \<and> getMaxLen s' = getMaxLen s \<and> getStartIdx s' = getStartIdx s
            \<and> getQueueLen s' = getQueueLen s)
       \<and> (\<exists>s'. setStartIdx s v = Returns s' \<and> getStartIdx s' = Returns v
            \<and> touchesOnly s s' startStartIdx endStartIdx
            \<and> getMaxLen s' = getMaxLen s \<and> getMsgSize s' = getMsgSize s
            \<and> getQueueLen s' = getQueueLen s)
       \<and> (\<exists>s'. setQueueLen s v = Returns s' \<and> getQueueLen s' = Returns v
            \<and> touchesOnly s s' startQueueLen endQueueLen
            \<and> getMaxLen s' = getMaxLen s \<and> getMsgSize s' = getMsgSize s
            \<and> getStartIdx s' = getStartIdx s)"
proof -
  from assms have len: "32 \<le> length (mem s)" by (simp add: endHeader_def)
  have a: "\<exists>s'. setMaxLen s v = Returns s' \<and> getMaxLen s' = Returns v
            \<and> touchesOnly s s' startMaxLen endMaxLen
            \<and> getMsgSize s' = getMsgSize s \<and> getStartIdx s' = getStartIdx s
            \<and> getQueueLen s' = getQueueLen s"
    using len touchesOnly_wr32 [of 8 s v]
    by (simp add: header_getters header_setters layout getField_eq setField_eq)
  have b: "\<exists>s'. setMsgSize s v = Returns s' \<and> getMsgSize s' = Returns v
            \<and> touchesOnly s s' startMsgSize endMsgSize
            \<and> getMaxLen s' = getMaxLen s \<and> getStartIdx s' = getStartIdx s
            \<and> getQueueLen s' = getQueueLen s"
    using len touchesOnly_wr32 [of 12 s v]
    by (simp add: header_getters header_setters layout getField_eq setField_eq)
  have c: "\<exists>s'. setStartIdx s v = Returns s' \<and> getStartIdx s' = Returns v
            \<and> touchesOnly s s' startStartIdx endStartIdx
            \<and> getMaxLen s' = getMaxLen s \<and> getMsgSize s' = getMsgSize s
            \<and> getQueueLen s' = getQueueLen s"
    using len touchesOnly_wr32 [of 24 s v]
    by (simp add: header_getters header_setters layout getField_eq setField_eq)
  have d: "\<exists>s'. setQueueLen s v = Returns s' \<and> getQueueLen s' = Returns v
            \<and> touchesOnly s s' startQueueLen endQueueLen
            \<and> getMaxLen s' = getMaxLen s \<and> getMsgSize s' = getMsgSize s
            \<and> getStartIdx s' = getStartIdx s"
    using len touchesOnly_wr32 [of 28 s v]
    by (simp add: header_getters header_setters layout getField_eq setField_eq)
  from a b c d show ?thesis by blast
qed

theorem header_setters_frame_witness:
  "endHeader \<le> length (mem \<lparr>mem = replicate 32 0, spare = [], byteOrder = LittleEndian, events = []\<rparr>)
   \<and> (\<exists>s'. setQueueLen \<lparr>mem = replicate 32 0, spare = [], byteOrder = LittleEndian, events = []\<rparr> 7
               = Returns s'
         \<and> getQueueLen s' = Returns 7
         \<and> touchesOnly \<lparr>mem = replicate 32 0, spare = [], byteOrder = LittleEndian, events = []\<rparr> s'
               startQueueLen endQueueLen)"
proof -
  have h: "endHeader \<le> length (mem \<lparr>mem = replicate 32 0, spare = [], byteOrder = LittleEndian, events = []\<rparr>)"
    by (simp add: endHeader_def)
  from header_setters_frame [OF h, of 7] show ?thesis using h by blast
qed

definition peek :: "segment \<Rightarrow> nat \<Rightarrow> nat \<Rightarrow> byte list" where
  "peek s a n = slice (mem s) a (a + n)"

definition poke :: "segment \<Rightarrow> nat \<Rightarrow> byte list \<Rightarrow> segment" where
  "poke s a bs = s\<lparr>mem := splice (mem s) a bs\<rparr>"

lemma rd32_peek: "rd32 s a = Uint32 (byteOrder s) (peek s a 4)"
  by (simp add: rd32_def peek_def)

lemma wr32_poke: "wr32 s a v = poke s a (enc32 (byteOrder s) v)"
  by (simp add: wr32_def poke_def)

lemma StoreUint64_poke:
  "p + 8 \<le> length (mem s) \<Longrightarrow> StoreUint64 s p v = poke s p (PutUint64 (byteOrder s) v)"
  by (simp add: StoreUint64_def poke_def setBacking_mem)

lemma poke_simps [simp]:
  "byteOrder (poke s a bs) = byteOrder s"
  "events (poke s a bs) = events s"
  "spare (poke s a bs) = spare s"
  "a + length bs \<le> length (mem s) \<Longrightarrow> length (mem (poke s a bs)) = length (mem s)"
  by (simp_all add: poke_def)

lemma emit_simps [simp]:
  "byteOrder (emit e s) = byteOrder s"
  "events (emit e s) = events s @ [e]"
  "mem (emit e s) = mem s"
  "spare (emit e s) = spare s"
  "peek (emit e s) a n = peek s a n"
  "rd32 (emit e s) a = rd32 s a"
  by (simp_all add: emit_def peek_def rd32_def)

lemma poke_emit: "poke (emit e s) a bs = emit e (poke s a bs)"
  by (simp add: poke_def emit_def)

lemma length_peek [simp]: "a + n \<le> length (mem s) \<Longrightarrow> length (peek s a n) = n"
  by (simp add: peek_def)

lemma peek_poke_same:
  "a + length bs \<le> length (mem s) \<Longrightarrow> n = length bs \<Longrightarrow> peek (poke s a bs) a n = bs"
  by (simp add: peek_def poke_def slice_splice_same)

lemma peek_poke_other:
  "a + length bs \<le> length (mem s) \<Longrightarrow> c + n \<le> length (mem s) \<Longrightarrow>
   c + n \<le> a \<or> a + length bs \<le> c \<Longrightarrow> peek (poke s a bs) c n = peek s c n"
  by (simp add: peek_def poke_def slice_splice_other)

lemma rd32_poke_other:
  "a + length bs \<le> length (mem s) \<Longrightarrow> c + 4 \<le> length (mem s) \<Longrightarrow>
   c + 4 \<le> a \<or> a + length bs \<le> c \<Longrightarrow> rd32 (poke s a bs) c = rd32 s c"
  by (simp add: rd32_peek peek_poke_other)

lemma nth_poke:
  "a + length bs \<le> length (mem s) \<Longrightarrow> i < length (mem s) \<Longrightarrow>
   mem (poke s a bs) ! i = (if a \<le> i \<and> i < a + length bs then bs ! (i - a) else mem s ! i)"
  by (simp add: poke_def nth_splice)

lemma nth_peek_zero:
  assumes "peek s a n = replicate n 0" "a + n \<le> length (mem s)" "a \<le> i" "i < a + n"
  shows "mem s ! i = 0"
proof -
  have "mem s ! i = peek s a n ! (i - a)"
    using assms(2-4) by (simp add: peek_def nth_slice)
  also have "\<dots> = replicate n 0 ! (i - a)" by (simp only: assms(1))
  also have "\<dots> = 0" using assms(3,4) by simp
  finally show ?thesis .
qed

text \<open>The lock word at an offset, and what the acquire loop does with it.\<close>

definition lockWord :: "segment \<Rightarrow> nat \<Rightarrow> uint64" where
  "lockWord s p = Uint64 (byteOrder s) (peek s p 8)"

lemma lockWord_zero_iff:
  "p + 8 \<le> length (mem s) \<Longrightarrow> lockWord s p = 0 \<longleftrightarrow> peek s p 8 = replicate 8 0"
  using Uint64_eq_0 [of "peek s p 8" "byteOrder s"] by (auto simp add: lockWord_def Uint64_zero)

lemma CompareAndSwapUint64_eq:
  "p + 8 \<le> length (mem s) \<Longrightarrow>
   CompareAndSwapUint64 s p 0 1
     = (if lockWord s p = 0 then (True, StoreUint64 s p 1) else (False, s))"
  by (simp add: CompareAndSwapUint64_def lockWord_def peek_def StoreUint64_def slice_backing)

lemma spinLock_free:
  "p + 8 \<le> length (mem s) \<Longrightarrow> lockWord s p = 0 \<Longrightarrow>
   spinLock p s i = Some (StoreUint64 s p 1)"
  by (subst spinLock.simps) (simp add: CompareAndSwapUint64_eq)

lemma spinLock_Some:
  assumes "spinLock p s i = Some s'"
  shows "p + 8 \<le> length (mem s) \<longrightarrow> lockWord s p = 0"
  by (rule spinLock.raw_induct
        [where P = "\<lambda>p s i s'. p + 8 \<le> length (mem s) \<longrightarrow> lockWord s p = 0", OF _ assms])
     (auto simp add: CompareAndSwapUint64_eq split: if_splits)

lemma spinLock_held:
  "p + 8 \<le> length (mem s) \<Longrightarrow> lockWord s p \<noteq> 0 \<Longrightarrow> spinLock p s i = None"
  using spinLock_Some [of p s i] by (cases "spinLock p s i") auto

lemma acquire_eq:
  "p + 8 \<le> length (mem s) \<Longrightarrow>
   acquire p s = (if lockWord s p = 0 then Returns (StoreUint64 s p 1) else Hangs)"
  by (simp add: acquire_def spinLock_free spinLock_held)

text \<open>Whatever the segment, the acquire loop returns only by storing 1 in the lock word.\<close>

lemma spinLock_stored:
  assumes "spinLock p s i = Some s'"
  shows "s' = StoreUint64 s p 1"
  by (rule spinLock.raw_induct [where P = "\<lambda>p s i s'. s' = StoreUint64 s p 1", OF _ assms])
     (auto simp add: CompareAndSwapUint64_def StoreUint64_def split: if_splits)

lemma acquire_Returns: "acquire p s = Returns s' \<Longrightarrow> s' = StoreUint64 s p 1"
  by (auto simp add: acquire_def spinLock_stored split: option.splits)

lemma uint64Ptr_eq: "p + 8 \<le> length (mem s) \<Longrightarrow> uint64Ptr s p = Returns p"
  by (simp add: uint64Ptr_def)

lemma lockHeader_eq:
  "24 \<le> length (mem s) \<Longrightarrow>
   lockHeader s = (if lockWord s 16 = 0 then Returns (emit LockHeader (StoreUint64 s 16 1)) else Hangs)"
  by (simp add: lockHeader_def uint64Ptr_eq acquire_eq startHeaderLock_def)

lemma unlockHeader_eq:
  "24 \<le> length (mem s) \<Longrightarrow> unlockHeader s = Returns (emit UnlockHeader (StoreUint64 s 16 0))"
  by (simp add: unlockHeader_def uint64Ptr_eq startHeaderLock_def)

lemma unat_sub_le:
  fixes a b :: uint32
  shows "a \<le> b \<Longrightarrow> unat (b - a) = unat b - unat a"
  by (simp add: unat_sub)

lemma setMsgData_loop_eq:
  assumes "unat stop \<le> length m" "start \<le> i" "i \<le> stop"
    and "length data = unat stop - unat start"
  shows "setMsgData_loop m data start stop i
           = Returns (take (unat i) m @ drop (unat i - unat start) data @ drop (unat stop) m)"
  using assms
proof (induction m data start stop i rule: setMsgData_loop.induct)
  case (1 m data start stop i)
  show ?case
  proof (cases "i < stop")
    case False
    with "1.prems" have "i = stop" by simp
    with "1.prems" show ?thesis by (subst setMsgData_loop.simps) simp
  next
    case True
    let ?k = "unat i - unat start"
    from True have ui: "unat i < unat stop" by (simp add: word_less_nat_alt)
    from "1.prems"(2) have us: "unat start \<le> unat i" by (simp add: word_le_nat_alt)
    have k: "unat (i - start) = ?k" using "1.prems"(2) by (simp add: unat_sub)
    have kl: "?k < length data" using ui us "1.prems"(4) by simp
    have il: "unat i < length m" using ui "1.prems"(1) by simp
    have suc: "unat (i + 1) = unat i + 1" using True by (rule unat_succ)
    have le1: "start \<le> i + 1" using us suc by (simp add: word_le_nat_alt)
    have le2: "i + 1 \<le> stop" using ui suc by (simp add: word_le_nat_alt)
    have IH: "setMsgData_loop (m[unat i := data ! unat (i - start)]) data start stop (i + 1)
        = Returns (take (unat (i + 1)) (m[unat i := data ! unat (i - start)])
                   @ drop (unat (i + 1) - unat start) data
                   @ drop (unat stop) (m[unat i := data ! unat (i - start)]))"
      using "1.IH" [OF True _ _ _ le1 le2] k kl il "1.prems"(1,4) by simp
    have a: "take (unat i + 1) (m[unat i := data ! ?k]) = take (unat i) m @ [data ! ?k]"
      using il by (simp add: take_Suc_conv_app_nth)
    have b: "drop ?k data = data ! ?k # drop (unat i + 1 - unat start) data"
      using kl us by (simp add: Cons_nth_drop_Suc Suc_diff_le)
    have c: "drop (unat stop) (m[unat i := data ! ?k]) = drop (unat stop) m"
      using ui by simp
    show ?thesis
      using True k kl il IH a b c suc
      by (subst setMsgData_loop.simps) simp
  qed
qed

lemma getMsgData_loop_eq:
  assumes "unat stop \<le> length m" "start \<le> i" "i \<le> stop"
    and "length toMsg = unat stop - unat start"
  shows "getMsgData_loop m toMsg start stop i
           = Returns (take (unat i - unat start) toMsg @ slice m (unat i) (unat stop))"
  using assms
proof (induction m toMsg start stop i rule: getMsgData_loop.induct)
  case (1 m toMsg start stop i)
  show ?case
  proof (cases "i < stop")
    case False
    with "1.prems" have "i = stop" by simp
    with "1.prems" show ?thesis
      by (subst getMsgData_loop.simps) (simp add: slice_def word_le_nat_alt)
  next
    case True
    let ?k = "unat i - unat start"
    from True have ui: "unat i < unat stop" by (simp add: word_less_nat_alt)
    from "1.prems"(2) have us: "unat start \<le> unat i" by (simp add: word_le_nat_alt)
    have k: "unat (i - start) = ?k" using "1.prems"(2) by (simp add: unat_sub)
    have kl: "?k < length toMsg" using ui us "1.prems"(4) by simp
    have il: "unat i < length m" using ui "1.prems"(1) by simp
    have suc: "unat (i + 1) = unat i + 1" using True by (rule unat_succ)
    have le1: "start \<le> i + 1" using us suc by (simp add: word_le_nat_alt)
    have le2: "i + 1 \<le> stop" using ui suc by (simp add: word_le_nat_alt)
    have IH: "getMsgData_loop m (toMsg[unat (i - start) := m ! unat i]) start stop (i + 1)
        = Returns (take (unat (i + 1) - unat start) (toMsg[unat (i - start) := m ! unat i])
                   @ slice m (unat (i + 1)) (unat stop))"
      using "1.IH" [OF True _ _ _ le1 le2] k kl il "1.prems"(1,4) by simp
    have a: "take (unat i + 1 - unat start) (toMsg[?k := m ! unat i]) = take ?k toMsg @ [m ! unat i]"
      using kl us by (simp add: Suc_diff_le take_Suc_conv_app_nth)
    have b: "slice m (unat i) (unat stop) = m ! unat i # slice m (unat i + 1) (unat stop)"
      using ui il by (simp add: slice_def Cons_nth_drop_Suc Suc_diff_Suc take_Suc_Cons[symmetric] del: take_Suc_Cons)
    show ?thesis
      using True k kl il IH a b suc
      by (subst getMsgData_loop.simps) simp
  qed
qed

text \<open>The header fields and the slot geometry of a segment, as numbers.\<close>

definition maxLenOf :: "segment \<Rightarrow> uint32" where "maxLenOf s = rd32 s 8"
definition msgSizeOf :: "segment \<Rightarrow> uint32" where "msgSizeOf s = rd32 s 12"
definition startIdxOf :: "segment \<Rightarrow> uint32" where "startIdxOf s = rd32 s 24"
definition queueLenOf :: "segment \<Rightarrow> uint32" where "queueLenOf s = rd32 s 28"

definition slotSize :: "segment \<Rightarrow> nat" where
  "slotSize s = unat (msgSizeOf s) + 8"

definition lockOff :: "segment \<Rightarrow> uint32 \<Rightarrow> nat" where
  "lockOff s idx = 32 + unat idx * slotSize s"

definition dataOff :: "segment \<Rightarrow> uint32 \<Rightarrow> nat" where
  "dataOff s idx = lockOff s idx + 8"

text \<open>
  A segment is well sized when it holds the header and all \<open>max_len\<close> slots, and the
  offsets of the slots fit 32 bits, so that the \<open>uint32\<close> arithmetic of \<open>startMsgLock\<close>
  and \<open>startEndMsgData\<close> does not wrap.
\<close>

definition wellSized :: "segment \<Rightarrow> bool" where
  "wellSized s \<longleftrightarrow>
     32 + unat (maxLenOf s) * slotSize s \<le> length (mem s) \<and>
     32 + unat (maxLenOf s) * slotSize s < 2 ^ 32"

lemma wellSized_header: "wellSized s \<Longrightarrow> 32 \<le> length (mem s)"
  by (simp add: wellSized_def)

lemma getters_eq:
  assumes "32 \<le> length (mem s)"
  shows "getMaxLen s = Returns (maxLenOf s)" "getMsgSize s = Returns (msgSizeOf s)"
    "getStartIdx s = Returns (startIdxOf s)" "getQueueLen s = Returns (queueLenOf s)"
  using assms
  by (simp_all add: header_getters layout getField_eq maxLenOf_def msgSizeOf_def
        startIdxOf_def queueLenOf_def)

lemma setters_eq:
  assumes "32 \<le> length (mem s)"
  shows "setMaxLen s v = Returns (wr32 s 8 v)" "setMsgSize s v = Returns (wr32 s 12 v)"
    "setStartIdx s v = Returns (wr32 s 24 v)" "setQueueLen s v = Returns (wr32 s 28 v)"
  using assms by (simp_all add: header_setters layout setField_eq)

lemma slot_in_range:
  assumes "wellSized s" "idx < maxLenOf s"
  shows "lockOff s idx + slotSize s \<le> length (mem s)" "lockOff s idx + slotSize s < 2 ^ 32"
    "32 \<le> lockOff s idx"
proof -
  from assms(2) have "Suc (unat idx) \<le> unat (maxLenOf s)" by (simp add: word_less_nat_alt)
  then have "Suc (unat idx) * slotSize s \<le> unat (maxLenOf s) * slotSize s"
    by (rule mult_le_mono1)
  then have le: "lockOff s idx + slotSize s \<le> 32 + unat (maxLenOf s) * slotSize s"
    by (simp add: lockOff_def)
  with assms(1) show "lockOff s idx + slotSize s \<le> length (mem s)"
    and "lockOff s idx + slotSize s < 2 ^ 32"
    by (simp_all add: wellSized_def)
  show "32 \<le> lockOff s idx" by (simp add: lockOff_def)
qed

lemma slots_disjoint:
  assumes "unat i < unat j"
  shows "lockOff s i + slotSize s \<le> lockOff s j"
proof -
  from assms have "Suc (unat i) \<le> unat j" by simp
  then have "Suc (unat i) * slotSize s \<le> unat j * slotSize s" by (rule mult_le_mono1)
  then show ?thesis by (simp add: lockOff_def)
qed

lemma unat_of_nat32: "n < 2 ^ 32 \<Longrightarrow> unat (of_nat n :: uint32) = n"
  by (simp add: unsigned_of_nat take_bit_nat_eq_self)

lemma startMsgLock_eq:
  assumes "32 \<le> length (mem s)"
  shows "startMsgLock s idx = Returns (of_nat (lockOff s idx))"
  using assms
  by (simp add: startMsgLock_def getters_eq lockOff_def slotSize_def msgLockSize_def
        startQueue_def)

lemma startEndMsgData_eq:
  assumes "32 \<le> length (mem s)"
  shows "startEndMsgData s idx
           = Returns (of_nat (dataOff s idx), of_nat (lockOff s idx + slotSize s))"
  using assms
  by (simp add: startEndMsgData_def getters_eq dataOff_def lockOff_def slotSize_def
        msgLockSize_def startQueue_def Let_def)

text \<open>Writes at or after the header lock keep the shape of the segment.\<close>

lemma shape_poke:
  assumes "16 \<le> a" "a + length bs \<le> length (mem s)"
  shows "maxLenOf (poke s a bs) = maxLenOf s" "msgSizeOf (poke s a bs) = msgSizeOf s"
    "slotSize (poke s a bs) = slotSize s" "lockOff (poke s a bs) idx = lockOff s idx"
    "dataOff (poke s a bs) idx = dataOff s idx" "wellSized (poke s a bs) = wellSized s"
proof -
  show a: "maxLenOf (poke s a bs) = maxLenOf s" and b: "msgSizeOf (poke s a bs) = msgSizeOf s"
    using assms by (simp_all add: maxLenOf_def msgSizeOf_def rd32_poke_other)
  show c: "slotSize (poke s a bs) = slotSize s" by (simp add: slotSize_def b)
  show d: "lockOff (poke s a bs) idx = lockOff s idx" by (simp add: lockOff_def c)
  show "dataOff (poke s a bs) idx = dataOff s idx" by (simp add: dataOff_def d)
  show "wellSized (poke s a bs) = wellSized s" using assms by (simp add: wellSized_def a c)
qed

lemma shape_emit [simp]:
  "maxLenOf (emit e s) = maxLenOf s" "msgSizeOf (emit e s) = msgSizeOf s"
  "startIdxOf (emit e s) = startIdxOf s" "queueLenOf (emit e s) = queueLenOf s"
  "slotSize (emit e s) = slotSize s" "lockOff (emit e s) idx = lockOff s idx"
  "dataOff (emit e s) idx = dataOff s idx" "wellSized (emit e s) = wellSized s"
  "lockWord (emit e s) p = lockWord s p"
  by (simp_all add: maxLenOf_def msgSizeOf_def startIdxOf_def queueLenOf_def slotSize_def
        lockOff_def dataOff_def wellSized_def lockWord_def)

lemma lockWord_poke_other:
  "a + length bs \<le> length (mem s) \<Longrightarrow> p + 8 \<le> length (mem s) \<Longrightarrow>
   p + 8 \<le> a \<or> a + length bs \<le> p \<Longrightarrow> lockWord (poke s a bs) p = lockWord s p"
  by (simp add: lockWord_def peek_poke_other)

lemma lockMsg_eq:
  assumes "wellSized s" "idx < maxLenOf s"
  shows "lockMsg s idx =
           (if lockWord s (lockOff s idx) = 0
            then Returns (emit (LockMsg idx) (StoreUint64 s (lockOff s idx) 1)) else Hangs)"
proof -
  note r = slot_in_range [OF assms]
  have "lockOff s idx < 2 ^ 32" using r(2) by simp
  then have u: "unat (of_nat (lockOff s idx) :: uint32) = lockOff s idx" by (rule unat_of_nat32)
  have "lockOff s idx + 8 \<le> length (mem s)" using r(1) by (simp add: slotSize_def)
  then show ?thesis
    using wellSized_header [OF assms(1)]
    by (simp add: lockMsg_def startMsgLock_eq u uint64Ptr_eq acquire_eq)
qed

lemma unlockMsg_eq:
  assumes "wellSized s" "idx < maxLenOf s"
  shows "unlockMsg s idx = Returns (emit (UnlockMsg idx) (StoreUint64 s (lockOff s idx) 0))"
proof -
  note r = slot_in_range [OF assms]
  have "lockOff s idx < 2 ^ 32" using r(2) by simp
  then have u: "unat (of_nat (lockOff s idx) :: uint32) = lockOff s idx" by (rule unat_of_nat32)
  have "lockOff s idx + 8 \<le> length (mem s)" using r(1) by (simp add: slotSize_def)
  then show ?thesis
    using wellSized_header [OF assms(1)]
    by (simp add: unlockMsg_def startMsgLock_eq u uint64Ptr_eq)
qed

lemma data_bounds:
  assumes "wellSized s" "idx < maxLenOf s"
  shows "unat (of_nat (dataOff s idx) :: uint32) = dataOff s idx"
    "unat (of_nat (lockOff s idx + slotSize s) :: uint32) = lockOff s idx + slotSize s"
    "(of_nat (dataOff s idx) :: uint32) \<le> of_nat (lockOff s idx + slotSize s)"
    "unat (of_nat (lockOff s idx + slotSize s) - of_nat (dataOff s idx) :: uint32)
       = unat (msgSizeOf s)"
    "dataOff s idx + unat (msgSizeOf s) = lockOff s idx + slotSize s"
proof -
  note r = slot_in_range [OF assms]
  have "dataOff s idx < 2 ^ 32" using r(2) by (simp add: dataOff_def slotSize_def)
  then show a: "unat (of_nat (dataOff s idx) :: uint32) = dataOff s idx" by (rule unat_of_nat32)
  show b: "unat (of_nat (lockOff s idx + slotSize s) :: uint32) = lockOff s idx + slotSize s"
    using r(2) by (rule unat_of_nat32)
  show c: "(of_nat (dataOff s idx) :: uint32) \<le> of_nat (lockOff s idx + slotSize s)"
    unfolding word_le_nat_alt a b by (simp add: dataOff_def slotSize_def)
  show "unat (of_nat (lockOff s idx + slotSize s) - of_nat (dataOff s idx) :: uint32)
       = unat (msgSizeOf s)"
    unfolding unat_sub_le [OF c] a b by (simp add: dataOff_def slotSize_def)
  show "dataOff s idx + unat (msgSizeOf s) = lockOff s idx + slotSize s"
    by (simp add: dataOff_def slotSize_def)
qed

lemma setMsgData_eq:
  assumes "wellSized s" "idx < maxLenOf s"
  shows "setMsgData s idx data =
           (if length data \<noteq> unat (msgSizeOf s)
            then Panics (MessageSize (unat (msgSizeOf s)) (length data))
            else Returns (emit (CopyIn idx) (poke s (dataOff s idx) data)))"
proof -
  define start :: uint32 where "start = of_nat (dataOff s idx)"
  define stop :: uint32 where "stop = of_nat (lockOff s idx + slotSize s)"
  note r = slot_in_range [OF assms]
  note d = data_bounds [OF assms, folded start_def stop_def]
  have se: "startEndMsgData s idx = Returns (start, stop)"
    using wellSized_header [OF assms(1)] by (simp add: startEndMsgData_eq start_def stop_def)
  show ?thesis
  proof (cases "length data = unat (msgSizeOf s)")
    case False
    then show ?thesis by (simp add: setMsgData_def se d(4))
  next
    case True
    have "setMsgData_loop (mem s) data start stop start
        = Returns (take (unat start) (mem s) @ drop (unat start - unat start) data
                   @ drop (unat stop) (mem s))"
    proof (rule setMsgData_loop_eq)
      show "unat stop \<le> length (mem s)" using r(1) by (simp only: d(2))
      show "start \<le> start" by simp
      show "start \<le> stop" by (rule d(3))
      show "length data = unat stop - unat start"
        using True d(4) d(3) by (simp only: unat_sub_le)
    qed
    also have "\<dots> = Returns (splice (mem s) (dataOff s idx) data)"
      using d(5) by (simp add: splice_def d(1) d(2) True)
    finally show ?thesis
      using True by (simp add: setMsgData_def se d(4) poke_def)
  qed
qed

lemma getMsgData_eq:
  assumes "wellSized s" "idx < maxLenOf s"
  shows "getMsgData s idx toMsg =
           (if length toMsg \<noteq> unat (msgSizeOf s)
            then Panics (MessageSize (unat (msgSizeOf s)) (length toMsg))
            else Returns (peek s (dataOff s idx) (unat (msgSizeOf s)), emit (CopyOut idx) s))"
proof -
  define start :: uint32 where "start = of_nat (dataOff s idx)"
  define stop :: uint32 where "stop = of_nat (lockOff s idx + slotSize s)"
  note r = slot_in_range [OF assms]
  note d = data_bounds [OF assms, folded start_def stop_def]
  have se: "startEndMsgData s idx = Returns (start, stop)"
    using wellSized_header [OF assms(1)] by (simp add: startEndMsgData_eq start_def stop_def)
  show ?thesis
  proof (cases "length toMsg = unat (msgSizeOf s)")
    case False
    then show ?thesis by (simp add: getMsgData_def se d(4))
  next
    case True
    have "getMsgData_loop (mem s) toMsg start stop start
        = Returns (take (unat start - unat start) toMsg @ slice (mem s) (unat start) (unat stop))"
    proof (rule getMsgData_loop_eq)
      show "unat stop \<le> length (mem s)" using r(1) by (simp only: d(2))
      show "start \<le> start" by simp
      show "start \<le> stop" by (rule d(3))
      show "length toMsg = unat stop - unat start"
        using True d(4) d(3) by (simp only: unat_sub_le)
    qed
    also have "\<dots> = Returns (peek s (dataOff s idx) (unat (msgSizeOf s)))"
      using d(5) by (simp add: peek_def d(1) d(2))
    finally show ?thesis
      using True by (simp add: getMsgData_def se d(4))
  qed
qed

text \<open>
  \<open>logged es s\<close> is \<open>s\<close> after the events \<open>es\<close>. Every state an operation leaves is
  brought to the form \<open>logged es (poke (poke s a x) b y)\<close>.
\<close>

definition logged :: "event list \<Rightarrow> segment \<Rightarrow> segment" where
  "logged es s = s\<lparr>events := events s @ es\<rparr>"

lemma emit_logged: "emit e s = logged [e] s"
  by (simp add: emit_def logged_def)

lemma logged_logged: "logged es (logged es' s) = logged (es' @ es) s"
  by (simp add: logged_def)

lemma poke_logged: "poke (logged es s) a bs = logged es (poke s a bs)"
  by (simp add: poke_def logged_def)

lemma logged_simps [simp]:
  "mem (logged es s) = mem s" "spare (logged es s) = spare s"
  "byteOrder (logged es s) = byteOrder s"
  "events (logged es s) = events s @ es"
  by (simp_all add: logged_def)

lemma segment_eqI:
  fixes s t :: segment
  shows "mem s = mem t \<Longrightarrow> spare s = spare t \<Longrightarrow> byteOrder s = byteOrder t \<Longrightarrow>
         events s = events t \<Longrightarrow> s = t"
  by simp

lemma poke_eqI:
  fixes s t :: segment
  assumes "length (mem s) = length (mem t)" "spare s = spare t" "byteOrder s = byteOrder t"
    "events s = events t"
    and "\<And>i. i < length (mem t) \<Longrightarrow> mem s ! i = mem t ! i"
  shows "s = t"
proof -
  have "mem s = mem t" by (rule nth_equalityI) (use assms in simp_all)
  then show ?thesis using assms(2,3,4) by (rule segment_eqI)
qed

text \<open>Taking a free lock and releasing it leaves the bytes of the lock word as they were.\<close>

lemma lock_release_id:
  assumes "p + 8 \<le> length (mem s)" "lockWord s p = 0"
  shows "poke (poke s p (PutUint64 bo 1)) p (replicate 8 0) = s"
proof (rule poke_eqI)
  fix i assume "i < length (mem s)"
  moreover have "peek s p 8 = replicate 8 0" using assms by (simp add: lockWord_zero_iff)
  ultimately show "mem (poke (poke s p (PutUint64 bo 1)) p (replicate 8 0)) ! i = mem s ! i"
    using assms(1) nth_peek_zero [of s p 8 i] by (auto simp add: nth_poke)
qed (use assms in simp_all)

lemma enqueue_mem:
  assumes "L + 8 + length msg \<le> length (mem s)" "32 \<le> L" "length e = 4" "length one = 8" "length one' = 8" "a = 24 \<or> a = 28"
    and "lockWord s 16 = 0" "lockWord s L = 0"
  shows "poke (poke (poke (poke (poke (poke s 16 one) a e) L one') (L + 8) msg)
            16 (replicate 8 0)) L (replicate 8 0)
         = poke (poke s a e) (L + 8) msg"
proof (rule poke_eqI)
  fix i assume i: "i < length (mem (poke (poke s a e) (L + 8) msg))"
  have z1: "peek s 16 8 = replicate 8 0" using assms by (simp add: lockWord_zero_iff)
  have z2: "peek s L 8 = replicate 8 0" using assms by (simp add: lockWord_zero_iff)
  show "mem (poke (poke (poke (poke (poke (poke s 16 one) a e) L one') (L + 8) msg)
            16 (replicate 8 0)) L (replicate 8 0)) ! i
         = mem (poke (poke s a e) (L + 8) msg) ! i"
    using i assms(1-6) nth_peek_zero [OF z1, of i] nth_peek_zero [OF z2, of i]
    by (auto simp add: nth_poke)
qed (use assms in auto)


lemma dequeue_mem:
  assumes "L + 8 \<le> length (mem s)" "32 \<le> L" "length e1 = 4" "length e2 = 4"
    "length one = 8" "length one' = 8"
    and "lockWord s 16 = 0" "lockWord s L = 0"
  shows "poke (poke (poke (poke (poke (poke s 16 one) 28 e1) 24 e2) L one')
            16 (replicate 8 0)) L (replicate 8 0)
         = poke (poke s 28 e1) 24 e2"
proof (rule poke_eqI)
  fix i assume i: "i < length (mem (poke (poke s 28 e1) 24 e2))"
  have z1: "peek s 16 8 = replicate 8 0" using assms by (simp add: lockWord_zero_iff)
  have z2: "peek s L 8 = replicate 8 0" using assms by (simp add: lockWord_zero_iff)
  show "mem (poke (poke (poke (poke (poke (poke s 16 one) 28 e1) 24 e2) L one')
            16 (replicate 8 0)) L (replicate 8 0)) ! i
         = mem (poke (poke s 28 e1) 24 e2) ! i"
    using i assms(1-6) nth_peek_zero [OF z1, of i] nth_peek_zero [OF z2, of i]
    by (auto simp add: nth_poke)
qed (use assms in auto)

lemma shape_logged [simp]:
  "maxLenOf (logged es s) = maxLenOf s" "msgSizeOf (logged es s) = msgSizeOf s"
  "startIdxOf (logged es s) = startIdxOf s" "queueLenOf (logged es s) = queueLenOf s"
  "slotSize (logged es s) = slotSize s" "lockOff (logged es s) idx = lockOff s idx"
  "dataOff (logged es s) idx = dataOff s idx" "wellSized (logged es s) = wellSized s"
  "lockWord (logged es s) p = lockWord s p" "peek (logged es s) a n = peek s a n"
  by (simp_all add: maxLenOf_def msgSizeOf_def startIdxOf_def queueLenOf_def slotSize_def
        lockOff_def dataOff_def wellSized_def lockWord_def peek_def rd32_def)

lemma fields_poke:
  assumes "a + length bs \<le> length (mem s)" "32 \<le> length (mem s)"
  shows "24 \<le> a \<or> a + length bs \<le> 16 \<Longrightarrow> lockWord (poke s a bs) 16 = lockWord s 16"
    "28 \<le> a \<or> a + length bs \<le> 24 \<Longrightarrow> startIdxOf (poke s a bs) = startIdxOf s"
    "32 \<le> a \<or> a + length bs \<le> 28 \<Longrightarrow> queueLenOf (poke s a bs) = queueLenOf s"
  using assms
  by (auto simp add: lockWord_poke_other startIdxOf_def queueLenOf_def rd32_poke_other)

lemma fields_poke_same:
  assumes "32 \<le> length (mem s)"
  shows "startIdxOf (poke s 24 (enc32 (byteOrder s) v)) = v"
    "queueLenOf (poke s 28 (enc32 (byteOrder s) v)) = v"
  using assms by (simp_all add: startIdxOf_def queueLenOf_def rd32_peek peek_poke_same)

lemmas to_poke = StoreUint64_poke wr32_poke emit_logged poke_logged logged_logged

lemmas step =
  lockHeader_eq getters_eq setters_eq to_poke umod_def fields_poke fields_poke_same
  shape_poke lockMsg_eq setMsgData_eq getMsgData_eq unlockHeader_eq unlockMsg_eq
  lockWord_poke_other peek_poke_other PutUint64_0

text \<open>The slot an enqueue writes, and the slot a dequeue reads.\<close>

definition tailIdx :: "segment \<Rightarrow> uint32" where
  "tailIdx s = (startIdxOf s + queueLenOf s) mod maxLenOf s"

definition nextStart :: "segment \<Rightarrow> uint32" where
  "nextStart s = (startIdxOf s + 1) mod maxLenOf s"

lemma mod_less_maxLen: "maxLenOf s \<noteq> 0 \<Longrightarrow> x mod maxLenOf s < maxLenOf s"
  by (simp add: word_mod_less_divisor word_neq_0_conv)

lemma slot_bounds:
  assumes "wellSized s" "idx < maxLenOf s"
  shows "32 \<le> lockOff s idx" "lockOff s idx + 8 \<le> length (mem s)"
    "dataOff s idx + unat (msgSizeOf s) \<le> length (mem s)" "dataOff s idx = lockOff s idx + 8"
  using slot_in_range [OF assms] by (simp_all add: slotSize_def dataOff_def)

definition appended :: "segment \<Rightarrow> byte list \<Rightarrow> segment" where
  "appended s msg =
     logged [LockHeader, LockMsg (tailIdx s), CopyIn (tailIdx s), UnlockHeader,
             UnlockMsg (tailIdx s)]
       (poke (poke s 28 (enc32 (byteOrder s) (queueLenOf s + 1))) (dataOff s (tailIdx s)) msg)"

definition shifted :: "segment \<Rightarrow> byte list \<Rightarrow> segment" where
  "shifted s msg =
     logged [LockHeader, LockMsg (tailIdx s), CopyIn (tailIdx s), UnlockHeader,
             UnlockMsg (tailIdx s)]
       (poke (poke s 24 (enc32 (byteOrder s) (nextStart s))) (dataOff s (tailIdx s)) msg)"

definition removed :: "segment \<Rightarrow> segment" where
  "removed s =
     logged [LockHeader, LockMsg (startIdxOf s), UnlockHeader, CopyOut (startIdxOf s),
             UnlockMsg (startIdxOf s)]
       (poke (poke s 28 (enc32 (byteOrder s) (queueLenOf s - 1)))
          24 (enc32 (byteOrder s) (nextStart s)))"

definition refused :: "segment \<Rightarrow> segment" where
  "refused s = logged [LockHeader, UnlockHeader] s"

lemma EnqueueTry_full:
  assumes "32 \<le> length (mem (seg q))" "lockWord (seg q) 16 = 0"
    and "maxLenOf (seg q) \<le> queueLenOf (seg q)"
  shows "EnqueueTry q msg = Returns (False, q\<lparr>seg := refused (seg q)\<rparr>)"
  using assms unfolding EnqueueTry_def refused_def
  by (simp add: step lock_release_id)

lemma EnqueueTry_room:
  assumes ws: "wellSized (seg q)" and hf: "lockWord (seg q) 16 = 0"
    and lt: "queueLenOf (seg q) < maxLenOf (seg q)"
    and sf: "lockWord (seg q) (lockOff (seg q) (tailIdx (seg q))) = 0"
  shows "EnqueueTry q msg =
           (if length msg \<noteq> unat (msgSizeOf (seg q))
            then Panics (MessageSize (unat (msgSizeOf (seg q))) (length msg))
            else Returns (True, q\<lparr>seg := appended (seg q) msg\<rparr>))"
proof -
  define s where "s = seg q"
  define idx where "idx = tailIdx s"
  note h = wellSized_header [OF ws, folded s_def]
  have nz: "maxLenOf s \<noteq> 0" using lt by (auto simp add: s_def)
  have il: "idx < maxLenOf s" unfolding idx_def tailIdx_def using nz by (rule mod_less_maxLen)
  note b = slot_bounds [OF ws [folded s_def] il]
  have nle: "\<not> maxLenOf s \<le> queueLenOf s" using lt by (simp add: s_def not_le)
  note i' = idx_def [unfolded tailIdx_def, symmetric]
  show ?thesis
    using h nz il b ws[folded s_def] nle sf[folded s_def idx_def] hf[folded s_def]
    unfolding EnqueueTry_def appended_def s_def[symmetric] idx_def[symmetric]
    by (simp add: step i' enqueue_mem)
qed


lemma EnqueueShift_zero:
  assumes "32 \<le> length (mem (seg q))" "lockWord (seg q) 16 = 0" "maxLenOf (seg q) = 0"
  shows "EnqueueShift q msg = Panics IntegerDivideByZero"
  using assms unfolding EnqueueShift_def by (simp add: step)

lemma EnqueueShift_room:
  assumes ws: "wellSized (seg q)" and hf: "lockWord (seg q) 16 = 0"
    and lt: "queueLenOf (seg q) < maxLenOf (seg q)"
    and sf: "lockWord (seg q) (lockOff (seg q) (tailIdx (seg q))) = 0"
  shows "EnqueueShift q msg =
           (if length msg \<noteq> unat (msgSizeOf (seg q))
            then Panics (MessageSize (unat (msgSizeOf (seg q))) (length msg))
            else Returns (q\<lparr>seg := appended (seg q) msg\<rparr>))"
proof -
  define s where "s = seg q"
  define idx where "idx = tailIdx s"
  note h = wellSized_header [OF ws, folded s_def]
  have nz: "maxLenOf s \<noteq> 0" using lt by (auto simp add: s_def)
  have il: "idx < maxLenOf s" unfolding idx_def tailIdx_def using nz by (rule mod_less_maxLen)
  note b = slot_bounds [OF ws [folded s_def] il]
  note i' = idx_def [unfolded tailIdx_def, symmetric]
  show ?thesis
    using h nz il b ws[folded s_def] lt[folded s_def] sf[folded s_def idx_def] hf[folded s_def]
    unfolding EnqueueShift_def appended_def s_def[symmetric] idx_def[symmetric]
    by (simp add: step i' enqueue_mem)
qed

lemma EnqueueShift_full:
  assumes ws: "wellSized (seg q)" and hf: "lockWord (seg q) 16 = 0"
    and ge: "maxLenOf (seg q) \<le> queueLenOf (seg q)" and nz: "maxLenOf (seg q) \<noteq> 0"
    and sf: "lockWord (seg q) (lockOff (seg q) (tailIdx (seg q))) = 0"
  shows "EnqueueShift q msg =
           (if length msg \<noteq> unat (msgSizeOf (seg q))
            then Panics (MessageSize (unat (msgSizeOf (seg q))) (length msg))
            else Returns (q\<lparr>seg := shifted (seg q) msg\<rparr>))"
proof -
  define s where "s = seg q"
  define idx where "idx = tailIdx s"
  note h = wellSized_header [OF ws, folded s_def]
  have il: "idx < maxLenOf s" unfolding idx_def tailIdx_def s_def using nz by (rule mod_less_maxLen)
  note b = slot_bounds [OF ws [folded s_def] il]
  have nlt: "\<not> queueLenOf s < maxLenOf s" using ge by (simp add: s_def not_less)
  note i' = idx_def [unfolded tailIdx_def, symmetric]
  show ?thesis
    using h nz[folded s_def] il b ws[folded s_def] nlt sf[folded s_def idx_def] hf[folded s_def]
    unfolding EnqueueShift_def shifted_def nextStart_def s_def[symmetric] idx_def[symmetric]
    by (simp add: step i' enqueue_mem)
qed

lemma DequeueTry_empty:
  assumes "32 \<le> length (mem (seg q))" "lockWord (seg q) 16 = 0" "queueLenOf (seg q) = 0"
  shows "DequeueTry q toMsg = Returns (False, toMsg, q\<lparr>seg := refused (seg q)\<rparr>)"
  using assms unfolding DequeueTry_def refused_def
  by (simp add: step lock_release_id)

lemma DequeueTry_zero:
  assumes "32 \<le> length (mem (seg q))" "lockWord (seg q) 16 = 0" "queueLenOf (seg q) \<noteq> 0"
    "maxLenOf (seg q) = 0"
  shows "DequeueTry q toMsg = Panics IntegerDivideByZero"
  using assms unfolding DequeueTry_def by (simp add: step)

lemma DequeueTry_some:
  assumes ws: "wellSized (seg q)" and hf: "lockWord (seg q) 16 = 0"
    and ne: "queueLenOf (seg q) \<noteq> 0" and il: "startIdxOf (seg q) < maxLenOf (seg q)"
    and sf: "lockWord (seg q) (lockOff (seg q) (startIdxOf (seg q))) = 0"
  shows "DequeueTry q toMsg =
           (if length toMsg \<noteq> unat (msgSizeOf (seg q))
            then Panics (MessageSize (unat (msgSizeOf (seg q))) (length toMsg))
            else Returns (True, peek (seg q) (dataOff (seg q) (startIdxOf (seg q)))
                                  (unat (msgSizeOf (seg q))),
                          q\<lparr>seg := removed (seg q)\<rparr>))"
proof -
  define s where "s = seg q"
  define idx where "idx = startIdxOf s"
  note h = wellSized_header [OF ws, folded s_def]
  have nz: "maxLenOf s \<noteq> 0" using il by (auto simp add: s_def)
  note il' = il [folded s_def idx_def]
  note b = slot_bounds [OF ws [folded s_def] il']
  show ?thesis
    using h nz il' b ws[folded s_def] ne[folded s_def] sf[folded s_def idx_def] hf[folded s_def]
    unfolding DequeueTry_def removed_def nextStart_def s_def[symmetric] idx_def[symmetric]
    by (simp add: step idx_def[symmetric] dequeue_mem)
qed

text \<open>
  The polling loops. In a run where nothing else touches the segment the second look at
  the header, under the lock, sees what the first saw; a blocking enqueue on a full queue
  and a blocking dequeue on an empty one poll until the context is done, or for ever.
\<close>

lemma waitOn_Returns [simp]: "waitOn (Returns x) f = f x"
  by (simp add: waitOn_def)

lemma EnqueueBlock_loop_done:
  "Done ctx i \<Longrightarrow> EnqueueBlock_loop ctx s i = Some (Returns (Inl (Err ctx, s)))"
  by (subst EnqueueBlock_loop.simps) simp

lemma EnqueueBlock_loop_room:
  assumes "\<not> Done ctx i" "32 \<le> length (mem s)" "queueLenOf s < maxLenOf s"
  shows "EnqueueBlock_loop ctx s i =
           (if lockWord s 16 = 0
            then Some (Returns (Inr (logged [LockHeader] (poke s 16 (PutUint64 (byteOrder s) 1)),
                                     queueLenOf s, maxLenOf s)))
            else Some Hangs)"
proof -
  have "\<not> maxLenOf s \<le> queueLenOf s" using assms(3) by (simp add: not_le)
  then show ?thesis
    using assms by (subst EnqueueBlock_loop.simps) (simp add: step waitOn_def)
qed

lemma EnqueueBlock_loop_full_step:
  assumes "\<not> Done ctx i" "32 \<le> length (mem s)" "maxLenOf s \<le> queueLenOf s"
  shows "EnqueueBlock_loop ctx s i = EnqueueBlock_loop ctx s (i + 1)"
proof -
  have "\<not> queueLenOf s < maxLenOf s" using assms(3) by (simp add: not_less)
  then show ?thesis
    using assms by (subst EnqueueBlock_loop.simps) (simp add: step)
qed

lemma EnqueueBlock_loop_full_later:
  assumes "32 \<le> length (mem s)" "maxLenOf s \<le> queueLenOf s" "Done ctx (i + k)"
  shows "EnqueueBlock_loop ctx s i = Some (Returns (Inl (Err ctx, s)))"
  using assms(3)
proof (induction k arbitrary: i)
  case 0
  then show ?case by (simp add: EnqueueBlock_loop_done)
next
  case (Suc k)
  show ?case
  proof (cases "Done ctx i")
    case True
    then show ?thesis by (rule EnqueueBlock_loop_done)
  next
    case False
    from Suc.prems have "Done ctx ((i + 1) + k)" by simp
    then have "EnqueueBlock_loop ctx s (i + 1) = Some (Returns (Inl (Err ctx, s)))"
      by (rule Suc.IH)
    then show ?thesis
      using EnqueueBlock_loop_full_step [OF False assms(1,2)] by simp
  qed
qed

lemma EnqueueBlock_loop_full_Some:
  assumes "EnqueueBlock_loop ctx s i = Some r"
  shows "32 \<le> length (mem s) \<longrightarrow> maxLenOf s \<le> queueLenOf s \<longrightarrow> (\<exists>n\<ge>i. Done ctx n)"
proof (rule EnqueueBlock_loop.raw_induct
    [where P = "\<lambda>ctx s i r. 32 \<le> length (mem s) \<longrightarrow> maxLenOf s \<le> queueLenOf s
                  \<longrightarrow> (\<exists>n\<ge>i. Done ctx n)", OF _ assms])
  fix f ctx s i r
  assume IH: "\<And>ctx s i r. f ctx s i = Some r \<Longrightarrow>
                32 \<le> length (mem s) \<longrightarrow> maxLenOf s \<le> queueLenOf s \<longrightarrow> (\<exists>n\<ge>i. Done ctx n)"
    and eq: "(if Done ctx i then Some (Returns (Inl (Err ctx, s)))
      else
        waitOn (getQueueLen s) (\<lambda>curLen.
        waitOn (getMaxLen s) (\<lambda>maxLen.
        if curLen < maxLen then
          waitOn (lockHeader s) (\<lambda>s.
          waitOn (getQueueLen s) (\<lambda>curLen.
          waitOn (getMaxLen s) (\<lambda>maxLen.
          if curLen \<ge> maxLen then
            waitOn (unlockHeader s) (\<lambda>s. f ctx s (i + 1))
          else Some (Returns (Inr (s, curLen, maxLen))))))
        else f ctx s (i + 1)))) = Some r"
  show "32 \<le> length (mem s) \<longrightarrow> maxLenOf s \<le> queueLenOf s \<longrightarrow> (\<exists>n\<ge>i. Done ctx n)"
  proof (intro impI)
    assume h: "32 \<le> length (mem s)" and full: "maxLenOf s \<le> queueLenOf s"
    show "\<exists>n\<ge>i. Done ctx n"
    proof (cases "Done ctx i")
      case True
      then show ?thesis by auto
    next
      case False
      have "\<not> queueLenOf s < maxLenOf s" using full by (simp add: not_less)
      with eq False h have "f ctx s (i + 1) = Some r" by (simp add: step)
      from IH [OF this] h full obtain n where "n \<ge> i + 1" "Done ctx n" by auto
      then show ?thesis by (intro exI [of _ n]) simp
    qed
  qed
qed

lemma EnqueueBlock_loop_full:
  assumes "32 \<le> length (mem s)" "maxLenOf s \<le> queueLenOf s"
  shows "EnqueueBlock_loop ctx s i =
           (if \<exists>n\<ge>i. Done ctx n then Some (Returns (Inl (Err ctx, s))) else None)"
proof (cases "\<exists>n\<ge>i. Done ctx n")
  case True
  then obtain n where "i \<le> n" "Done ctx n" by auto
  then have "Done ctx (i + (n - i))" by simp
  from EnqueueBlock_loop_full_later [OF assms this] True show ?thesis by simp
next
  case False
  then show ?thesis
    using EnqueueBlock_loop_full_Some [of ctx s i] assms
    by (cases "EnqueueBlock_loop ctx s i") auto
qed

lemma DequeueBlock_loop_done:
  "Done ctx i \<Longrightarrow> DequeueBlock_loop ctx s i = Some (Returns (Inl (Err ctx, s)))"
  by (subst DequeueBlock_loop.simps) simp

lemma DequeueBlock_loop_some:
  assumes "\<not> Done ctx i" "32 \<le> length (mem s)" "queueLenOf s \<noteq> 0"
  shows "DequeueBlock_loop ctx s i =
           (if lockWord s 16 = 0
            then Some (Returns (Inr (logged [LockHeader] (poke s 16 (PutUint64 (byteOrder s) 1)),
                                     queueLenOf s)))
            else Some Hangs)"
  using assms
  by (subst DequeueBlock_loop.simps) (simp add: step waitOn_def word_greater_zero_iff)

lemma DequeueBlock_loop_empty_step:
  assumes "\<not> Done ctx i" "32 \<le> length (mem s)" "queueLenOf s = 0"
  shows "DequeueBlock_loop ctx s i = DequeueBlock_loop ctx s (i + 1)"
  using assms by (subst DequeueBlock_loop.simps) (simp add: step)

lemma DequeueBlock_loop_empty_later:
  assumes "32 \<le> length (mem s)" "queueLenOf s = 0" "Done ctx (i + k)"
  shows "DequeueBlock_loop ctx s i = Some (Returns (Inl (Err ctx, s)))"
  using assms(3)
proof (induction k arbitrary: i)
  case 0
  then show ?case by (simp add: DequeueBlock_loop_done)
next
  case (Suc k)
  show ?case
  proof (cases "Done ctx i")
    case True
    then show ?thesis by (rule DequeueBlock_loop_done)
  next
    case False
    from Suc.prems have "Done ctx ((i + 1) + k)" by simp
    then have "DequeueBlock_loop ctx s (i + 1) = Some (Returns (Inl (Err ctx, s)))"
      by (rule Suc.IH)
    then show ?thesis
      using DequeueBlock_loop_empty_step [OF False assms(1,2)] by simp
  qed
qed

lemma DequeueBlock_loop_empty_Some:
  assumes "DequeueBlock_loop ctx s i = Some r"
  shows "32 \<le> length (mem s) \<longrightarrow> queueLenOf s = 0 \<longrightarrow> (\<exists>n\<ge>i. Done ctx n)"
proof (rule DequeueBlock_loop.raw_induct
    [where P = "\<lambda>ctx s i r. 32 \<le> length (mem s) \<longrightarrow> queueLenOf s = 0
                  \<longrightarrow> (\<exists>n\<ge>i. Done ctx n)", OF _ assms])
  fix f ctx s i r
  assume IH: "\<And>ctx s i r. f ctx s i = Some r \<Longrightarrow>
                32 \<le> length (mem s) \<longrightarrow> queueLenOf s = 0 \<longrightarrow> (\<exists>n\<ge>i. Done ctx n)"
    and eq: "(if Done ctx i then Some (Returns (Inl (Err ctx, s)))
      else
        waitOn (getQueueLen s) (\<lambda>curLen.
        if curLen > 0 then
          waitOn (lockHeader s) (\<lambda>s.
          waitOn (getQueueLen s) (\<lambda>curLen.
          if curLen = 0 then
            waitOn (unlockHeader s) (\<lambda>s. f ctx s (i + 1))
          else Some (Returns (Inr (s, curLen)))))
        else f ctx s (i + 1))) = Some r"
  show "32 \<le> length (mem s) \<longrightarrow> queueLenOf s = 0 \<longrightarrow> (\<exists>n\<ge>i. Done ctx n)"
  proof (intro impI)
    assume h: "32 \<le> length (mem s)" and empty: "queueLenOf s = 0"
    show "\<exists>n\<ge>i. Done ctx n"
    proof (cases "Done ctx i")
      case True
      then show ?thesis by auto
    next
      case False
      with eq h empty have "f ctx s (i + 1) = Some r" by (simp add: step)
      from IH [OF this] h empty obtain n where "n \<ge> i + 1" "Done ctx n" by auto
      then show ?thesis by (intro exI [of _ n]) simp
    qed
  qed
qed

lemma DequeueBlock_loop_empty:
  assumes "32 \<le> length (mem s)" "queueLenOf s = 0"
  shows "DequeueBlock_loop ctx s i =
           (if \<exists>n\<ge>i. Done ctx n then Some (Returns (Inl (Err ctx, s))) else None)"
proof (cases "\<exists>n\<ge>i. Done ctx n")
  case True
  then obtain n where "i \<le> n" "Done ctx n" by auto
  then have "Done ctx (i + (n - i))" by simp
  from DequeueBlock_loop_empty_later [OF assms this] True show ?thesis by simp
next
  case False
  then show ?thesis
    using DequeueBlock_loop_empty_Some [of ctx s i] assms
    by (cases "DequeueBlock_loop ctx s i") auto
qed

text \<open>The blocking operations, branch by branch.\<close>

lemma EnqueueBlock_cancelled:
  "Done ctx 0 \<Longrightarrow> EnqueueBlock ctx q msg = Returns (Some (Err ctx), q)"
  by (simp add: EnqueueBlock_def EnqueueBlock_loop_done)

lemma DequeueBlock_cancelled:
  "Done ctx 0 \<Longrightarrow> DequeueBlock ctx q toMsg = Returns (Some (Err ctx), toMsg, q)"
  by (simp add: DequeueBlock_def DequeueBlock_loop_done)

lemma EnqueueBlock_full:
  assumes "32 \<le> length (mem (seg q))" "maxLenOf (seg q) \<le> queueLenOf (seg q)"
  shows "EnqueueBlock ctx q msg =
           (if \<exists>n. Done ctx n then Returns (Some (Err ctx), q) else Hangs)"
  using assms by (simp add: EnqueueBlock_def EnqueueBlock_loop_full)

lemma DequeueBlock_empty:
  assumes "32 \<le> length (mem (seg q))" "queueLenOf (seg q) = 0"
  shows "DequeueBlock ctx q toMsg =
           (if \<exists>n. Done ctx n then Returns (Some (Err ctx), toMsg, q) else Hangs)"
  using assms by (simp add: DequeueBlock_def DequeueBlock_loop_empty)

lemma EnqueueBlock_room:
  assumes nd: "\<not> Done ctx 0"
    and ws: "wellSized (seg q)" and hf: "lockWord (seg q) 16 = 0"
    and lt: "queueLenOf (seg q) < maxLenOf (seg q)"
    and sf: "lockWord (seg q) (lockOff (seg q) (tailIdx (seg q))) = 0"
  shows "EnqueueBlock ctx q msg =
           (if length msg \<noteq> unat (msgSizeOf (seg q))
            then Panics (MessageSize (unat (msgSizeOf (seg q))) (length msg))
            else Returns (None, q\<lparr>seg := appended (seg q) msg\<rparr>))"
proof -
  define s where "s = seg q"
  define idx where "idx = tailIdx s"
  note h = wellSized_header [OF ws, folded s_def]
  have nz: "maxLenOf s \<noteq> 0" using lt by (auto simp add: s_def)
  have il: "idx < maxLenOf s" unfolding idx_def tailIdx_def using nz by (rule mod_less_maxLen)
  note b = slot_bounds [OF ws [folded s_def] il]
  note i' = idx_def [unfolded tailIdx_def, symmetric]
  note loop = EnqueueBlock_loop_room [OF nd h lt [folded s_def]]
  show ?thesis
    using h nz il b ws[folded s_def] sf[folded s_def idx_def] hf[folded s_def]
    unfolding EnqueueBlock_def appended_def s_def[symmetric] idx_def[symmetric]
    by (simp add: loop step i' enqueue_mem)
qed

lemma DequeueBlock_some:
  assumes nd: "\<not> Done ctx 0"
    and ws: "wellSized (seg q)" and hf: "lockWord (seg q) 16 = 0"
    and ne: "queueLenOf (seg q) \<noteq> 0" and il: "startIdxOf (seg q) < maxLenOf (seg q)"
    and sf: "lockWord (seg q) (lockOff (seg q) (startIdxOf (seg q))) = 0"
  shows "DequeueBlock ctx q toMsg =
           (if length toMsg \<noteq> unat (msgSizeOf (seg q))
            then Panics (MessageSize (unat (msgSizeOf (seg q))) (length toMsg))
            else Returns (None, peek (seg q) (dataOff (seg q) (startIdxOf (seg q)))
                                  (unat (msgSizeOf (seg q))),
                          q\<lparr>seg := removed (seg q)\<rparr>))"
proof -
  define s where "s = seg q"
  define idx where "idx = startIdxOf s"
  note h = wellSized_header [OF ws, folded s_def]
  have nz: "maxLenOf s \<noteq> 0" using il by (auto simp add: s_def)
  note il' = il [folded s_def idx_def]
  note b = slot_bounds [OF ws [folded s_def] il']
  note loop = DequeueBlock_loop_some [OF nd h ne [folded s_def]]
  show ?thesis
    using h nz il' b ws[folded s_def] sf[folded s_def idx_def] hf[folded s_def]
    unfolding DequeueBlock_def removed_def nextStart_def s_def[symmetric] idx_def[symmetric]
    by (simp add: loop step idx_def[symmetric] dequeue_mem)
qed

lemma DequeueBlock_zero:
  assumes "\<not> Done ctx 0" "32 \<le> length (mem (seg q))" "lockWord (seg q) 16 = 0"
    "queueLenOf (seg q) \<noteq> 0" "maxLenOf (seg q) = 0"
  shows "DequeueBlock ctx q toMsg = Panics IntegerDivideByZero"
  using assms unfolding DequeueBlock_def
  by (simp add: DequeueBlock_loop_some step)

text \<open>
  A queue at rest: the segment is well sized, no lock is held, and the ring state obeys
  its bounds. \<open>slotPayload s idx\<close> is what \<open>getMsgData\<close> copies out of slot \<open>idx\<close>.
\<close>

definition idle :: "segment \<Rightarrow> bool" where
  "idle s \<longleftrightarrow>
     lockWord s 16 = 0 \<and> (\<forall>idx. idx < maxLenOf s \<longrightarrow> lockWord s (lockOff s idx) = 0)"

definition ringInv :: "segment \<Rightarrow> bool" where
  "ringInv s \<longleftrightarrow> queueLenOf s \<le> maxLenOf s \<and> startIdxOf s < maxLenOf s"

definition atRest :: "segment \<Rightarrow> bool" where
  "atRest s \<longleftrightarrow> wellSized s \<and> idle s \<and> ringInv s"

definition slotPayload :: "segment \<Rightarrow> uint32 \<Rightarrow> byte list" where
  "slotPayload s idx = peek s (dataOff s idx) (unat (msgSizeOf s))"

lemma slot_cases:
  fixes i j :: uint32
  assumes "i \<noteq> j"
  shows "lockOff s i + slotSize s \<le> lockOff s j \<or> lockOff s j + slotSize s \<le> lockOff s i"
proof -
  from assms have "unat i \<noteq> unat j" by (simp add: word_unat_eq_iff)
  then have "unat i < unat j \<or> unat j < unat i" by arith
  then show ?thesis using slots_disjoint [of i j s] slots_disjoint [of j i s] by blast
qed

text \<open>A header field and the payload of one slot, rewritten.\<close>

lemma written_shape:
  assumes ws: "wellSized s" and il: "idx < maxLenOf s" and len: "length msg = unat (msgSizeOf s)"
    and a: "a = 24 \<or> a = 28" and e: "length e = 4"
  defines "u \<equiv> poke (poke s a e) (dataOff s idx) msg"
  shows "maxLenOf u = maxLenOf s" "msgSizeOf u = msgSizeOf s" "wellSized u"
    "length (mem u) = length (mem s)" "byteOrder u = byteOrder s" "events u = events s"
    "lockOff u j = lockOff s j" "dataOff u j = dataOff s j" "lockWord u 16 = lockWord s 16"
proof -
  note h = wellSized_header [OF ws]
  note b = slot_bounds [OF ws il]
  show "maxLenOf u = maxLenOf s" "msgSizeOf u = msgSizeOf s" "wellSized u"
    "length (mem u) = length (mem s)" "byteOrder u = byteOrder s" "events u = events s"
    "lockOff u j = lockOff s j" "dataOff u j = dataOff s j" "lockWord u 16 = lockWord s 16"
    using h b ws len a e unfolding u_def by (auto simp add: shape_poke fields_poke)
qed

lemma written_slots:
  assumes ws: "wellSized s" and il: "idx < maxLenOf s" and len: "length msg = unat (msgSizeOf s)"
    and a: "a = 24 \<or> a = 28" and e: "length e = 4" and jl: "j < maxLenOf s"
  defines "u \<equiv> poke (poke s a e) (dataOff s idx) msg"
  shows "lockWord u (lockOff s j) = lockWord s (lockOff s j)"
    "slotPayload u j = (if j = idx then msg else slotPayload s j)"
proof -
  note h = wellSized_header [OF ws]
  note b = slot_bounds [OF ws il]
  note c = slot_bounds [OF ws jl]
  note sh = written_shape [OF ws il len a e, folded u_def]
  have dis: "j \<noteq> idx \<Longrightarrow> lockOff s j + slotSize s \<le> lockOff s idx
      \<or> lockOff s idx + slotSize s \<le> lockOff s j"
    by (rule slot_cases)
  have lk: "lockOff s j + 8 \<le> dataOff s idx \<or> dataOff s idx + length msg \<le> lockOff s j"
  proof (cases "j = idx")
    case True
    then show ?thesis using b by simp
  next
    case False
    from dis [OF this] show ?thesis using b c len by (auto simp add: slotSize_def)
  qed
  show "lockWord u (lockOff s j) = lockWord s (lockOff s j)"
    using h b c len a e lk unfolding u_def by (auto simp add: lockWord_poke_other)
  have sp: "slotPayload u j = peek u (dataOff s j) (unat (msgSizeOf s))"
    by (simp add: slotPayload_def sh)
  show "slotPayload u j = (if j = idx then msg else slotPayload s j)"
  proof (cases "j = idx")
    case True
    then show ?thesis
      using h b len a e unfolding sp unfolding u_def
      by (auto simp add: peek_poke_same)
  next
    case False
    from dis [OF this]
    have "dataOff s j + unat (msgSizeOf s) \<le> dataOff s idx
        \<or> dataOff s idx + length msg \<le> dataOff s j"
      using b c len by (auto simp add: slotSize_def)
    then show ?thesis
      using False h b c len a e unfolding sp unfolding u_def slotPayload_def
      by (auto simp add: peek_poke_other)
  qed
qed


lemma field_written:
  assumes "32 \<le> length (mem s)" "bo = byteOrder s"
  shows "startIdxOf (poke s 24 (enc32 bo v)) = v" "queueLenOf (poke s 28 (enc32 bo v)) = v"
  using assms by (simp_all add: fields_poke_same)

lemma inc_le_maxLen:
  fixes n m :: uint32
  shows "n < m \<Longrightarrow> n + 1 \<le> m"
  by (simp add: inc_le)

lemma dec_le_maxLen:
  fixes n m :: uint32
  assumes "n \<le> m" "n \<noteq> 0"
  shows "n - 1 \<le> m"
proof -
  have "unat (n - 1) = unat n - 1" using assms(2) by (simp add: unat_minus_one)
  then show ?thesis using assms(1) by (simp add: word_le_nat_alt)
qed

lemma tailIdx_less: "maxLenOf s \<noteq> 0 \<Longrightarrow> tailIdx s < maxLenOf s"
  unfolding tailIdx_def by (rule mod_less_maxLen)

lemma nextStart_less: "maxLenOf s \<noteq> 0 \<Longrightarrow> nextStart s < maxLenOf s"
  unfolding nextStart_def by (rule mod_less_maxLen)

lemma atRest_nonzero: "atRest s \<Longrightarrow> maxLenOf s \<noteq> 0"
  by (auto simp add: atRest_def ringInv_def)

text \<open>What the four outcomes of an operation leave behind.\<close>

lemma refused_facts [simp]:
  "mem (refused s) = mem s" "byteOrder (refused s) = byteOrder s"
  "maxLenOf (refused s) = maxLenOf s" "msgSizeOf (refused s) = msgSizeOf s"
  "startIdxOf (refused s) = startIdxOf s" "queueLenOf (refused s) = queueLenOf s"
  "slotPayload (refused s) j = slotPayload s j" "atRest (refused s) = atRest s"
  "events (refused s) = events s @ [LockHeader, UnlockHeader]"
  by (simp_all add: refused_def slotPayload_def atRest_def idle_def ringInv_def)

lemma appended_facts:
  assumes "atRest s" "queueLenOf s < maxLenOf s" "length msg = unat (msgSizeOf s)"
  shows "maxLenOf (appended s msg) = maxLenOf s" "msgSizeOf (appended s msg) = msgSizeOf s"
    "startIdxOf (appended s msg) = startIdxOf s"
    "queueLenOf (appended s msg) = queueLenOf s + 1"
    "atRest (appended s msg)"
    "j < maxLenOf s \<Longrightarrow>
       slotPayload (appended s msg) j = (if j = tailIdx s then msg else slotPayload s j)"
proof -
  from assms(1) have ws: "wellSized s" and idl: "idle s" and inv: "ringInv s"
    by (simp_all add: atRest_def)
  note h = wellSized_header [OF ws]
  have il: "tailIdx s < maxLenOf s" using atRest_nonzero [OF assms(1)] by (rule tailIdx_less)
  note b = slot_bounds [OF ws il]
  note sh = written_shape [OF ws il assms(3), of 28 "enc32 (byteOrder s) (queueLenOf s + 1)"]
  note sl = written_slots [OF ws il assms(3), of 28 "enc32 (byteOrder s) (queueLenOf s + 1)"]
  show m: "maxLenOf (appended s msg) = maxLenOf s" and "msgSizeOf (appended s msg) = msgSizeOf s"
    using sh by (simp_all add: appended_def)
  show st: "startIdxOf (appended s msg) = startIdxOf s"
    using h b assms(3) by (simp add: appended_def fields_poke)
  show ql: "queueLenOf (appended s msg) = queueLenOf s + 1"
    using h b assms(3) by (simp add: appended_def fields_poke field_written)
  show "atRest (appended s msg)"
    unfolding atRest_def idle_def ringInv_def m st ql
    using sh sl(1) idl inv inc_le_maxLen [OF assms(2)]
    by (simp add: appended_def idle_def ringInv_def)
  show "slotPayload (appended s msg) j = (if j = tailIdx s then msg else slotPayload s j)"
    if "j < maxLenOf s"
    using sl(2) [OF _ _ that] by (simp add: appended_def slotPayload_def)
qed


lemma shifted_facts:
  assumes "atRest s" "length msg = unat (msgSizeOf s)"
  shows "maxLenOf (shifted s msg) = maxLenOf s" "msgSizeOf (shifted s msg) = msgSizeOf s"
    "startIdxOf (shifted s msg) = nextStart s"
    "queueLenOf (shifted s msg) = queueLenOf s"
    "atRest (shifted s msg)"
    "j < maxLenOf s \<Longrightarrow>
       slotPayload (shifted s msg) j = (if j = tailIdx s then msg else slotPayload s j)"
proof -
  from assms(1) have ws: "wellSized s" and idl: "idle s" and inv: "ringInv s"
    by (simp_all add: atRest_def)
  note h = wellSized_header [OF ws]
  note nz = atRest_nonzero [OF assms(1)]
  have il: "tailIdx s < maxLenOf s" using nz by (rule tailIdx_less)
  note b = slot_bounds [OF ws il]
  note sh = written_shape [OF ws il assms(2), of 24 "enc32 (byteOrder s) (nextStart s)"]
  note sl = written_slots [OF ws il assms(2), of 24 "enc32 (byteOrder s) (nextStart s)"]
  show m: "maxLenOf (shifted s msg) = maxLenOf s" and "msgSizeOf (shifted s msg) = msgSizeOf s"
    using sh by (simp_all add: shifted_def)
  show st: "startIdxOf (shifted s msg) = nextStart s"
    using h b assms(2) by (simp add: shifted_def fields_poke field_written)
  show ql: "queueLenOf (shifted s msg) = queueLenOf s"
    using h b assms(2) by (simp add: shifted_def fields_poke)
  show "atRest (shifted s msg)"
    unfolding atRest_def idle_def ringInv_def m st ql
    using sh sl(1) idl inv nextStart_less [OF nz]
    by (simp add: shifted_def idle_def ringInv_def)
  show "slotPayload (shifted s msg) j = (if j = tailIdx s then msg else slotPayload s j)"
    if "j < maxLenOf s"
    using sl(2) [OF _ _ that] by (simp add: shifted_def slotPayload_def)
qed

lemma removed_facts:
  assumes "atRest s" "queueLenOf s \<noteq> 0"
  shows "maxLenOf (removed s) = maxLenOf s" "msgSizeOf (removed s) = msgSizeOf s"
    "startIdxOf (removed s) = nextStart s"
    "queueLenOf (removed s) = queueLenOf s - 1"
    "atRest (removed s)"
    "j < maxLenOf s \<Longrightarrow> slotPayload (removed s) j = slotPayload s j"
proof -
  from assms(1) have ws: "wellSized s" and idl: "idle s" and inv: "ringInv s"
    by (simp_all add: atRest_def)
  note h = wellSized_header [OF ws]
  note nz = atRest_nonzero [OF assms(1)]
  show m: "maxLenOf (removed s) = maxLenOf s" and z: "msgSizeOf (removed s) = msgSizeOf s"
    using h by (simp_all add: removed_def shape_poke)
  show st: "startIdxOf (removed s) = nextStart s"
    using h by (simp add: removed_def field_written)
  show ql: "queueLenOf (removed s) = queueLenOf s - 1"
    using h by (simp add: removed_def fields_poke field_written)
  have lo: "lockOff (removed s) j = lockOff s j" "dataOff (removed s) j = dataOff s j" for j
    using h by (simp_all add: removed_def shape_poke)
  have w: "wellSized (removed s)" using h ws by (simp add: removed_def shape_poke)
  have l16: "lockWord (removed s) 16 = 0"
    using h idl by (simp add: removed_def fields_poke idle_def)
  have lj: "lockWord (removed s) (lockOff s j) = 0" if "j < maxLenOf s" for j
    using h slot_bounds [OF ws that] idl that
    by (simp add: removed_def lockWord_poke_other idle_def)
  show "atRest (removed s)"
    unfolding atRest_def idle_def ringInv_def m st ql lo
    using w l16 lj inv nextStart_less [OF nz] dec_le_maxLen [OF _ assms(2)]
    by (simp add: ringInv_def)
  show "slotPayload (removed s) j = slotPayload s j" if "j < maxLenOf s"
    unfolding slotPayload_def lo z
    using h slot_bounds [OF ws that] by (simp add: removed_def peek_poke_other)
qed

text \<open>The five operations on a queue at rest.\<close>

lemma atRest_locks:
  assumes "atRest s"
  shows "wellSized s" "32 \<le> length (mem s)" "lockWord s 16 = 0"
    "lockWord s (lockOff s (tailIdx s)) = 0" "lockWord s (lockOff s (startIdxOf s)) = 0"
    "startIdxOf s < maxLenOf s" "maxLenOf s \<noteq> 0"
proof -
  from assms show ws: "wellSized s" and "lockWord s 16 = 0" and "startIdxOf s < maxLenOf s"
    by (simp_all add: atRest_def idle_def ringInv_def)
  show "32 \<le> length (mem s)" using ws by (rule wellSized_header)
  show nz: "maxLenOf s \<noteq> 0" using assms by (rule atRest_nonzero)
  show "lockWord s (lockOff s (tailIdx s)) = 0"
    using assms tailIdx_less [OF nz] by (simp add: atRest_def idle_def)
  show "lockWord s (lockOff s (startIdxOf s)) = 0"
    using assms by (simp add: atRest_def idle_def ringInv_def)
qed

lemma EnqueueTry_atRest:
  assumes "atRest (seg q)"
  shows "EnqueueTry q msg =
           (if maxLenOf (seg q) \<le> queueLenOf (seg q)
            then Returns (False, q\<lparr>seg := refused (seg q)\<rparr>)
            else if length msg \<noteq> unat (msgSizeOf (seg q))
            then Panics (MessageSize (unat (msgSizeOf (seg q))) (length msg))
            else Returns (True, q\<lparr>seg := appended (seg q) msg\<rparr>))"
proof (cases "maxLenOf (seg q) \<le> queueLenOf (seg q)")
  case True
  then show ?thesis
    using EnqueueTry_full [of q msg] atRest_locks [OF assms] by simp
next
  case False
  then have "queueLenOf (seg q) < maxLenOf (seg q)" by (simp add: not_le)
  then show ?thesis
    using False EnqueueTry_room [of q msg] atRest_locks [OF assms] by simp
qed

lemma EnqueueShift_atRest:
  assumes "atRest (seg q)"
  shows "EnqueueShift q msg =
           (if length msg \<noteq> unat (msgSizeOf (seg q))
            then Panics (MessageSize (unat (msgSizeOf (seg q))) (length msg))
            else if queueLenOf (seg q) < maxLenOf (seg q)
            then Returns (q\<lparr>seg := appended (seg q) msg\<rparr>)
            else Returns (q\<lparr>seg := shifted (seg q) msg\<rparr>))"
proof (cases "queueLenOf (seg q) < maxLenOf (seg q)")
  case True
  then show ?thesis
    using EnqueueShift_room [of q msg] atRest_locks [OF assms] by simp
next
  case False
  then have "maxLenOf (seg q) \<le> queueLenOf (seg q)" by (simp add: not_less)
  then show ?thesis
    using False EnqueueShift_full [of q msg] atRest_locks [OF assms] by simp
qed

lemma DequeueTry_atRest:
  assumes "atRest (seg q)"
  shows "DequeueTry q toMsg =
           (if queueLenOf (seg q) = 0
            then Returns (False, toMsg, q\<lparr>seg := refused (seg q)\<rparr>)
            else if length toMsg \<noteq> unat (msgSizeOf (seg q))
            then Panics (MessageSize (unat (msgSizeOf (seg q))) (length toMsg))
            else Returns (True, slotPayload (seg q) (startIdxOf (seg q)),
                          q\<lparr>seg := removed (seg q)\<rparr>))"
proof (cases "queueLenOf (seg q) = 0")
  case True
  then show ?thesis
    using DequeueTry_empty [of q toMsg] atRest_locks [OF assms] by simp
next
  case False
  then show ?thesis
    using DequeueTry_some [of q toMsg] atRest_locks [OF assms] by (simp add: slotPayload_def)
qed

lemma EnqueueBlock_atRest:
  assumes "atRest (seg q)"
  shows "EnqueueBlock ctx q msg =
           (if Done ctx 0 then Returns (Some (Err ctx), q)
            else if queueLenOf (seg q) < maxLenOf (seg q)
            then (if length msg \<noteq> unat (msgSizeOf (seg q))
                  then Panics (MessageSize (unat (msgSizeOf (seg q))) (length msg))
                  else Returns (None, q\<lparr>seg := appended (seg q) msg\<rparr>))
            else if \<exists>n. Done ctx n then Returns (Some (Err ctx), q) else Hangs)"
proof (cases "Done ctx 0")
  case True
  then show ?thesis by (simp add: EnqueueBlock_cancelled)
next
  case nd: False
  show ?thesis
  proof (cases "queueLenOf (seg q) < maxLenOf (seg q)")
    case True
    then show ?thesis
      using nd EnqueueBlock_room [of ctx q msg] atRest_locks [OF assms] by simp
  next
    case False
    then have "maxLenOf (seg q) \<le> queueLenOf (seg q)" by (simp add: not_less)
    then show ?thesis
      using nd False EnqueueBlock_full [of q ctx msg] atRest_locks [OF assms] by simp
  qed
qed

lemma DequeueBlock_atRest:
  assumes "atRest (seg q)"
  shows "DequeueBlock ctx q toMsg =
           (if Done ctx 0 then Returns (Some (Err ctx), toMsg, q)
            else if queueLenOf (seg q) \<noteq> 0
            then (if length toMsg \<noteq> unat (msgSizeOf (seg q))
                  then Panics (MessageSize (unat (msgSizeOf (seg q))) (length toMsg))
                  else Returns (None, slotPayload (seg q) (startIdxOf (seg q)),
                                q\<lparr>seg := removed (seg q)\<rparr>))
            else if \<exists>n. Done ctx n then Returns (Some (Err ctx), toMsg, q) else Hangs)"
proof (cases "Done ctx 0")
  case True
  then show ?thesis by (simp add: DequeueBlock_cancelled)
next
  case nd: False
  show ?thesis
  proof (cases "queueLenOf (seg q) = 0")
    case True
    then show ?thesis
      using nd DequeueBlock_empty [of q ctx toMsg] atRest_locks [OF assms] by simp
  next
    case False
    then show ?thesis
      using nd DequeueBlock_some [of ctx q toMsg] atRest_locks [OF assms]
      by (simp add: slotPayload_def)
  qed
qed

text \<open>
  The queue that \<open>testQueue(t, startIdx, curLen)\<close> of queue_test.go sets up on a
  little-endian machine: \<open>Create(key, 2, 5)\<close> on a fresh segment, then \<open>setStartIdx\<close>
  and \<open>setQueueLen\<close>.
\<close>

definition testQueue :: "uint32 \<Rightarrow> uint32 \<Rightarrow> Queue" where
  "testQueue startIdx curLen =
     \<lparr>key = 1, id = 1,
      seg = \<lparr>mem = magic @ enc32 LittleEndian 5 @ enc32 LittleEndian 16 @ replicate 8 0
                     @ enc32 LittleEndian startIdx @ enc32 LittleEndian curLen
                     @ replicate 120 0,
             spare = [], byteOrder = LittleEndian, events = []\<rparr>\<rparr>"

definition testMsgA :: "byte list" where "testMsgA = replicate 16 0xAA"
definition testMsgB :: "byte list" where "testMsgB = replicate 16 0xBB"
definition testMsgC :: "byte list" where "testMsgC = replicate 16 0xCC"

lemma length_magic [simp]: "length magic = 8"
  by (simp add: magic_def)

lemma slice_zero_tail:
  assumes "length pre \<le> a" "a + k \<le> length pre + n"
  shows "slice (pre @ replicate n 0) a (a + k) = replicate k 0"
  using assms by (simp add: slice_def min_def)

lemma testQueue_fields:
  "maxLenOf (seg (testQueue a n)) = 5" "msgSizeOf (seg (testQueue a n)) = 16"
  "startIdxOf (seg (testQueue a n)) = a" "queueLenOf (seg (testQueue a n)) = n"
  "length (mem (seg (testQueue a n))) = 152" "byteOrder (seg (testQueue a n)) = LittleEndian"
  "events (seg (testQueue a n)) = []"
  by (simp_all add: testQueue_def maxLenOf_def msgSizeOf_def startIdxOf_def queueLenOf_def
        rd32_def slice_def)

lemma testQueue_geometry:
  "slotSize (seg (testQueue a n)) = 24" "lockOff (seg (testQueue a n)) j = 32 + unat j * 24"
  "dataOff (seg (testQueue a n)) j = 40 + unat j * 24"
  by (simp_all add: slotSize_def lockOff_def dataOff_def testQueue_fields)

lemma testQueue_zero:
  assumes "32 \<le> p" "p + k \<le> 152"
  shows "peek (seg (testQueue a n)) p k = replicate k 0"
proof -
  have "mem (seg (testQueue a n))
      = (magic @ enc32 LittleEndian 5 @ enc32 LittleEndian 16 @ replicate 8 0
          @ enc32 LittleEndian a @ enc32 LittleEndian n) @ replicate 120 0"
    by (simp add: testQueue_def)
  then show ?thesis
    unfolding peek_def using assms by (simp only: slice_zero_tail length_append length_magic length_enc32 length_replicate)
qed

lemma testQueue_slots:
  assumes "j < 5"
  shows "lockWord (seg (testQueue a n)) (lockOff (seg (testQueue a n)) j) = 0"
    "slotPayload (seg (testQueue a n)) j = replicate 16 0"
proof -
  from assms have "unat j < 5" by (simp add: word_less_nat_alt)
  then have b: "32 + unat j * 24 + 24 \<le> 152" by simp
  show "lockWord (seg (testQueue a n)) (lockOff (seg (testQueue a n)) j) = 0"
    using b by (simp add: lockWord_def testQueue_geometry testQueue_zero testQueue_fields Uint64_zero)
  show "slotPayload (seg (testQueue a n)) j = replicate 16 0"
    using b by (simp add: slotPayload_def testQueue_geometry testQueue_zero testQueue_fields)
qed

lemma testQueue_atRest:
  assumes "a < 5" "n \<le> 5"
  shows "atRest (seg (testQueue a n))"
proof -
  have "peek (seg (testQueue a n)) 16 8 = replicate 8 0"
    by (simp add: peek_def testQueue_def slice_def)
  then have "lockWord (seg (testQueue a n)) 16 = 0"
    by (simp add: lockWord_def Uint64_zero)
  then show ?thesis
    using assms testQueue_slots(1)
    by (simp add: atRest_def wellSized_def idle_def ringInv_def testQueue_fields
          testQueue_geometry)
qed

text \<open>Ring indices as natural numbers: on a queue at rest the sums do not wrap.\<close>

lemma wellSized_maxLen: "wellSized s \<Longrightarrow> unat (maxLenOf s) < 536870912"
proof -
  assume "wellSized s"
  then have "unat (maxLenOf s) * slotSize s < 2 ^ 32" by (simp add: wellSized_def)
  moreover have "unat (maxLenOf s) * 8 \<le> unat (maxLenOf s) * slotSize s"
    by (rule mult_le_mono2) (simp add: slotSize_def)
  ultimately have "unat (maxLenOf s) * 8 < 2 ^ 32" by (rule le_less_trans [rotated])
  then show ?thesis by simp
qed

lemma unat_add32:
  fixes a b :: uint32
  shows "unat a + unat b < 2 ^ 32 \<Longrightarrow> unat (a + b) = unat a + unat b"
  using unat_add_lem [of a b] by simp

lemma tailIdx_nat:
  assumes "atRest s"
  shows "unat (tailIdx s) = (unat (startIdxOf s) + unat (queueLenOf s)) mod unat (maxLenOf s)"
proof -
  from assms have "unat (startIdxOf s) < unat (maxLenOf s)" "unat (queueLenOf s) \<le> unat (maxLenOf s)"
    by (simp_all add: atRest_def ringInv_def word_less_nat_alt word_le_nat_alt)
  moreover have "unat (maxLenOf s) < 536870912"
    using assms by (simp add: atRest_def wellSized_maxLen)
  ultimately have "unat (startIdxOf s) + unat (queueLenOf s) < 2 ^ 32" by simp
  then show ?thesis by (simp add: tailIdx_def unat_mod unat_add32)
qed

lemma nextStart_nat:
  assumes "atRest s"
  shows "unat (nextStart s) = (unat (startIdxOf s) + 1) mod unat (maxLenOf s)"
proof -
  from assms have "unat (startIdxOf s) < unat (maxLenOf s)"
    by (simp add: atRest_def ringInv_def word_less_nat_alt)
  moreover have "unat (maxLenOf s) < 536870912"
    using assms by (simp add: atRest_def wellSized_maxLen)
  ultimately have "unat (startIdxOf s) + unat (1 :: uint32) < 2 ^ 32" by simp
  then have "unat (startIdxOf s + 1) = unat (startIdxOf s) + 1"
    using unat_add32 [of "startIdxOf s" 1] by simp
  then show ?thesis by (simp add: nextStart_def unat_mod)
qed

lemma tailIdx_empty:
  assumes "atRest s" "queueLenOf s = 0"
  shows "tailIdx s = startIdxOf s"
proof -
  from assms(1) have "unat (startIdxOf s) < unat (maxLenOf s)"
    by (simp add: atRest_def ringInv_def word_less_nat_alt)
  then have "unat (tailIdx s) = unat (startIdxOf s)"
    using tailIdx_nat [OF assms(1)] assms(2) by simp
  then show ?thesis by (simp add: word_unat_eq_iff)
qed

lemma tailIdx_not_start:
  assumes "atRest s" "queueLenOf s \<noteq> 0" "queueLenOf s < maxLenOf s"
  shows "tailIdx s \<noteq> startIdxOf s"
proof
  assume eq: "tailIdx s = startIdxOf s"
  let ?a = "unat (startIdxOf s)" and ?n = "unat (queueLenOf s)" and ?m = "unat (maxLenOf s)"
  from assms have a: "?a < ?m" and n: "0 < ?n" "?n < ?m"
    by (simp_all add: atRest_def ringInv_def word_less_nat_alt unat_gt_0)
  from eq have "(?a + ?n) mod ?m = ?a" using tailIdx_nat [OF assms(1)] by simp
  moreover have "(?a + ?n) mod ?m = (if ?a + ?n < ?m then ?a + ?n else ?a + ?n - ?m)"
    using a n by (simp add: mod_if)
  ultimately show False using a n by (simp split: if_splits)
qed

section \<open>The claims\<close>

text \<open>
  Claim C6. When the cancellation signal is already signaled at the call (the first poll
  of \<open>ctx.Done()\<close> finds it closed), \<open>EnqueueBlock\<close> and \<open>DequeueBlock\<close> return the
  error of the context and the queue they were given, untouched: no byte of the segment
  is written, so \<open>start_idx\<close>, \<open>queue_len\<close> and every slot keep their value, and the
  buffer of the dequeue is unchanged. This holds for every queue, a full one included.
\<close>

theorem blocking_cancelled:
  assumes "Done ctx 0"
  shows "EnqueueBlock ctx q msg = Returns (Some (Err ctx), q)
       \<and> DequeueBlock ctx q toMsg = Returns (Some (Err ctx), toMsg, q)"
  using assms by (simp add: EnqueueBlock_cancelled DequeueBlock_cancelled)

theorem blocking_cancelled_witness:
  "Done \<lparr>Done = (\<lambda>i. True), Err = Canceled\<rparr> 0
   \<and> EnqueueBlock \<lparr>Done = (\<lambda>i. True), Err = Canceled\<rparr> (testQueue 0 5) testMsgA
       = Returns (Some Canceled, testQueue 0 5)
   \<and> DequeueBlock \<lparr>Done = (\<lambda>i. True), Err = Canceled\<rparr> (testQueue 4 0) (replicate 16 0)
       = Returns (Some Canceled, replicate 16 0, testQueue 4 0)"
  using blocking_cancelled [of "\<lparr>Done = (\<lambda>i. True), Err = Canceled\<rparr>" "testQueue 0 5" testMsgA]
    blocking_cancelled [of "\<lparr>Done = (\<lambda>i. True), Err = Canceled\<rparr>" "testQueue 4 0" _
       "replicate 16 0"]
  by simp

text \<open>
  Claim C4. On a queue at rest \<open>EnqueueTry\<close> returns false exactly when
  \<open>queue_len \<ge> max_len\<close>, and then the memory of the segment is what it was; when
  \<open>queue_len < max_len\<close> and the payload has \<open>msg_size\<close> bytes it returns true,
  \<open>queue_len\<close> is one more, \<open>start_idx\<close> is unchanged and the payload is in slot
  \<open>(start_idx + queue_len) mod max_len\<close>. \<open>DequeueTry\<close> returns false exactly when
  \<open>queue_len = 0\<close>, and then the memory and the buffer are what they were.
\<close>

theorem try_results:
  assumes "atRest (seg q)"
  shows "((\<exists>q'. EnqueueTry q msg = Returns (False, q'))
            \<longleftrightarrow> maxLenOf (seg q) \<le> queueLenOf (seg q))
       \<and> (maxLenOf (seg q) \<le> queueLenOf (seg q) \<longrightarrow>
            (\<exists>q'. EnqueueTry q msg = Returns (False, q') \<and> mem (seg q') = mem (seg q)))
       \<and> (queueLenOf (seg q) < maxLenOf (seg q) \<and> length msg = unat (msgSizeOf (seg q)) \<longrightarrow>
            (\<exists>q'. EnqueueTry q msg = Returns (True, q')
               \<and> getQueueLen (seg q') = Returns (queueLenOf (seg q) + 1)
               \<and> getStartIdx (seg q') = Returns (startIdxOf (seg q))
               \<and> slotPayload (seg q') (tailIdx (seg q)) = msg
               \<and> unat (tailIdx (seg q))
                   = (unat (startIdxOf (seg q)) + unat (queueLenOf (seg q)))
                       mod unat (maxLenOf (seg q))))
       \<and> ((\<exists>buf q'. DequeueTry q toMsg = Returns (False, buf, q'))
            \<longleftrightarrow> queueLenOf (seg q) = 0)
       \<and> (queueLenOf (seg q) = 0 \<longrightarrow>
            (\<exists>q'. DequeueTry q toMsg = Returns (False, toMsg, q')
               \<and> mem (seg q') = mem (seg q)))"
proof -
  note e = EnqueueTry_atRest [OF assms, of msg]
  note d = DequeueTry_atRest [OF assms, of toMsg]
  note nz = atRest_nonzero [OF assms]
  have 1: "(\<exists>q'. EnqueueTry q msg = Returns (False, q'))
            \<longleftrightarrow> maxLenOf (seg q) \<le> queueLenOf (seg q)"
    unfolding e by auto
  have 2: "maxLenOf (seg q) \<le> queueLenOf (seg q) \<longrightarrow>
            (\<exists>q'. EnqueueTry q msg = Returns (False, q') \<and> mem (seg q') = mem (seg q))"
    unfolding e by simp
  have 3: "queueLenOf (seg q) < maxLenOf (seg q) \<and> length msg = unat (msgSizeOf (seg q)) \<longrightarrow>
            (\<exists>q'. EnqueueTry q msg = Returns (True, q')
               \<and> getQueueLen (seg q') = Returns (queueLenOf (seg q) + 1)
               \<and> getStartIdx (seg q') = Returns (startIdxOf (seg q))
               \<and> slotPayload (seg q') (tailIdx (seg q)) = msg
               \<and> unat (tailIdx (seg q))
                   = (unat (startIdxOf (seg q)) + unat (queueLenOf (seg q)))
                       mod unat (maxLenOf (seg q)))"
  proof (intro impI, elim conjE)
    assume lt: "queueLenOf (seg q) < maxLenOf (seg q)"
      and len: "length msg = unat (msgSizeOf (seg q))"
    note f = appended_facts [OF assms lt len]
    have "32 \<le> length (mem (appended (seg q) msg))"
      using f(5) by (simp add: atRest_def wellSized_header)
    then show "\<exists>q'. EnqueueTry q msg = Returns (True, q')
               \<and> getQueueLen (seg q') = Returns (queueLenOf (seg q) + 1)
               \<and> getStartIdx (seg q') = Returns (startIdxOf (seg q))
               \<and> slotPayload (seg q') (tailIdx (seg q)) = msg
               \<and> unat (tailIdx (seg q))
                   = (unat (startIdxOf (seg q)) + unat (queueLenOf (seg q)))
                       mod unat (maxLenOf (seg q))"
      unfolding e using lt len f(3,4) f(6) [OF tailIdx_less [OF nz]] tailIdx_nat [OF assms]
      by (simp add: not_le getters_eq)
  qed
  have 4: "(\<exists>buf q'. DequeueTry q toMsg = Returns (False, buf, q'))
            \<longleftrightarrow> queueLenOf (seg q) = 0"
    unfolding d by auto
  have 5: "queueLenOf (seg q) = 0 \<longrightarrow>
            (\<exists>q'. DequeueTry q toMsg = Returns (False, toMsg, q')
               \<and> mem (seg q') = mem (seg q))"
    unfolding d by simp
  from 1 2 3 4 5 show ?thesis by blast
qed


theorem try_results_witness:
  "atRest (seg (testQueue 0 5))
   \<and> (\<exists>q'. EnqueueTry (testQueue 0 5) testMsgA = Returns (False, q')
          \<and> mem (seg q') = mem (seg (testQueue 0 5)))
   \<and> atRest (seg (testQueue 2 0))
   \<and> (\<exists>q'. EnqueueTry (testQueue 2 0) testMsgA = Returns (True, q')
          \<and> getQueueLen (seg q') = Returns 1 \<and> getStartIdx (seg q') = Returns 2
          \<and> slotPayload (seg q') 2 = testMsgA)
   \<and> (\<exists>q'. DequeueTry (testQueue 2 0) (replicate 16 0) = Returns (False, replicate 16 0, q')
          \<and> mem (seg q') = mem (seg (testQueue 2 0)))"
proof -
  have a: "atRest (seg (testQueue 0 5))" and b: "atRest (seg (testQueue 2 0))"
    by (simp_all add: testQueue_atRest)
  have t: "tailIdx (seg (testQueue 2 0)) = 2"
    by (simp add: tailIdx_def testQueue_fields)
  show ?thesis
    using a b try_results [OF a, of testMsgA] try_results [OF b, of testMsgA "replicate 16 0"]
    by (simp add: testQueue_fields testMsgA_def t)
qed

text \<open>
  The queues reachable from \<open>q0\<close>: by \<open>EnqueueShift\<close>, \<open>EnqueueTry\<close>, \<open>DequeueTry\<close>,
  \<open>EnqueueBlock\<close> and \<open>DequeueBlock\<close>, each time a call returns.
\<close>

inductive reachable :: "Queue \<Rightarrow> Queue \<Rightarrow> bool" for q0 :: Queue where
  start: "reachable q0 q0"
| shift: "reachable q0 q \<Longrightarrow> EnqueueShift q msg = Returns q' \<Longrightarrow> reachable q0 q'"
| try_enqueue: "reachable q0 q \<Longrightarrow> EnqueueTry q msg = Returns (ok, q') \<Longrightarrow> reachable q0 q'"
| try_dequeue:
    "reachable q0 q \<Longrightarrow> DequeueTry q toMsg = Returns (ok, buf, q') \<Longrightarrow> reachable q0 q'"
| block_enqueue:
    "reachable q0 q \<Longrightarrow> EnqueueBlock ctx q msg = Returns (err, q') \<Longrightarrow> reachable q0 q'"
| block_dequeue:
    "reachable q0 q \<Longrightarrow> DequeueBlock ctx q toMsg = Returns (err, buf, q') \<Longrightarrow> reachable q0 q'"

text \<open>
  A freshly created queue: both indices are zero, the capacity is at least one, no lock is
  held and the segment is well sized.
\<close>

definition fresh :: "Queue \<Rightarrow> bool" where
  "fresh q \<longleftrightarrow>
     wellSized (seg q) \<and> idle (seg q) \<and> startIdxOf (seg q) = 0 \<and> queueLenOf (seg q) = 0
     \<and> 1 \<le> maxLenOf (seg q)"

lemma fresh_atRest: "fresh q \<Longrightarrow> atRest (seg q)"
  by (auto simp add: fresh_def atRest_def ringInv_def word_less_nat_alt word_le_nat_alt)

lemma reachable_atRest:
  assumes "fresh q0" "reachable q0 q"
  shows "atRest (seg q) \<and> maxLenOf (seg q) = maxLenOf (seg q0)"
  using assms(2)
proof (induction rule: reachable.induct)
  case start
  show ?case using assms(1) by (simp add: fresh_atRest)
next
  case (shift q msg q')
  then have r: "atRest (seg q)" and m: "maxLenOf (seg q) = maxLenOf (seg q0)" by simp_all
  from shift.hyps(2) show ?case
    unfolding EnqueueShift_atRest [OF r]
    using m appended_facts(1,5) [OF r, of msg] shifted_facts(1,5) [OF r, of msg]
    by (auto split: if_splits)
next
  case (try_enqueue q msg ok q')
  then have r: "atRest (seg q)" and m: "maxLenOf (seg q) = maxLenOf (seg q0)" by simp_all
  from try_enqueue.hyps(2) show ?case
    unfolding EnqueueTry_atRest [OF r]
    using r m appended_facts(1,5) [OF r, of msg]
    by (auto split: if_splits simp add: not_le)
next
  case (try_dequeue q toMsg ok buf q')
  then have r: "atRest (seg q)" and m: "maxLenOf (seg q) = maxLenOf (seg q0)" by simp_all
  from try_dequeue.hyps(2) show ?case
    unfolding DequeueTry_atRest [OF r]
    using r m removed_facts(1,5) [OF r]
    by (auto split: if_splits)
next
  case (block_enqueue q ctx msg err q')
  then have r: "atRest (seg q)" and m: "maxLenOf (seg q) = maxLenOf (seg q0)" by simp_all
  from block_enqueue.hyps(2) show ?case
    unfolding EnqueueBlock_atRest [OF r]
    using r m appended_facts(1,5) [OF r, of msg]
    by (auto split: if_splits)
next
  case (block_dequeue q ctx toMsg err buf q')
  then have r: "atRest (seg q)" and m: "maxLenOf (seg q) = maxLenOf (seg q0)" by simp_all
  from block_dequeue.hyps(2) show ?case
    unfolding DequeueBlock_atRest [OF r]
    using r m removed_facts(1,5) [OF r]
    by (auto split: if_splits)
qed

text \<open>
  Claim C1. In every queue reachable from a freshly created one, \<open>max_len\<close> is the
  capacity the queue was created with, \<open>0 \<le> queue_len \<le> max_len\<close> and
  \<open>0 \<le> start_idx < max_len\<close>.
\<close>

theorem ring_invariant:
  assumes "fresh q0" "reachable q0 q"
  shows "getMaxLen (seg q) = Returns (maxLenOf (seg q0))
       \<and> (\<exists>n a. getQueueLen (seg q) = Returns n \<and> getStartIdx (seg q) = Returns a
              \<and> 0 \<le> n \<and> n \<le> maxLenOf (seg q0) \<and> 0 \<le> a \<and> a < maxLenOf (seg q0))"
proof -
  from reachable_atRest [OF assms]
  have r: "atRest (seg q)" and m: "maxLenOf (seg q) = maxLenOf (seg q0)" by simp_all
  from r have "32 \<le> length (mem (seg q))" by (simp add: atRest_def wellSized_header)
  then show ?thesis
    using r m by (simp add: getters_eq atRest_def ringInv_def)
qed

theorem ring_invariant_witness:
  "fresh (testQueue 0 0)
   \<and> reachable (testQueue 0 0)
        ((testQueue 0 0)\<lparr>seg := appended (seg (testQueue 0 0)) testMsgA\<rparr>)
   \<and> getMaxLen (appended (seg (testQueue 0 0)) testMsgA) = Returns 5
   \<and> (\<exists>n a. getQueueLen (appended (seg (testQueue 0 0)) testMsgA) = Returns n
          \<and> getStartIdx (appended (seg (testQueue 0 0)) testMsgA) = Returns a
          \<and> n \<le> 5 \<and> a < 5)"
proof -
  have r: "atRest (seg (testQueue 0 0))" by (simp add: testQueue_atRest)
  have f: "fresh (testQueue 0 0)"
    using r by (simp add: fresh_def atRest_def testQueue_fields)
  have "EnqueueTry (testQueue 0 0) testMsgA
      = Returns (True, (testQueue 0 0)\<lparr>seg := appended (seg (testQueue 0 0)) testMsgA\<rparr>)"
    by (simp add: EnqueueTry_atRest [OF r] testQueue_fields testMsgA_def)
  then have s: "reachable (testQueue 0 0)
        ((testQueue 0 0)\<lparr>seg := appended (seg (testQueue 0 0)) testMsgA\<rparr>)"
    by (rule reachable.try_enqueue [OF reachable.start])
  from ring_invariant [OF f s] f s show ?thesis by (simp add: testQueue_fields)
qed

text \<open>
  Claim C3, as stated, fails: the queue is first-in first-out. On the test queue with one
  message (sixteen zero bytes in slot 0), \<open>EnqueueTry\<close> of sixteen bytes \<open>0xAA\<close> returns
  true and the \<open>DequeueTry\<close> that follows returns true with the sixteen zero bytes, not
  with the payload just enqueued.
\<close>

theorem roundtrip_counterexample:
  "queueLenOf (seg (testQueue 0 1)) < maxLenOf (seg (testQueue 0 1))
   \<and> length testMsgA = unat (msgSizeOf (seg (testQueue 0 1)))
   \<and> EnqueueTry (testQueue 0 1) testMsgA
       = Returns (True, (testQueue 0 1)\<lparr>seg := appended (seg (testQueue 0 1)) testMsgA\<rparr>)
   \<and> DequeueTry ((testQueue 0 1)\<lparr>seg := appended (seg (testQueue 0 1)) testMsgA\<rparr>)
         (replicate 16 0xFF)
       = Returns (True, replicate 16 0,
           (testQueue 0 1)\<lparr>seg := removed (appended (seg (testQueue 0 1)) testMsgA)\<rparr>)
   \<and> replicate 16 0 \<noteq> testMsgA"
proof -
  have r: "atRest (seg (testQueue 0 1))" by (simp add: testQueue_atRest)
  have lt: "queueLenOf (seg (testQueue 0 1)) < maxLenOf (seg (testQueue 0 1))"
    and len: "length testMsgA = unat (msgSizeOf (seg (testQueue 0 1)))"
    by (simp_all add: testQueue_fields testMsgA_def)
  note f = appended_facts [OF r lt len]
  have t: "tailIdx (seg (testQueue 0 1)) = 1" by (simp add: tailIdx_def testQueue_fields)
  have e: "EnqueueTry (testQueue 0 1) testMsgA
       = Returns (True, (testQueue 0 1)\<lparr>seg := appended (seg (testQueue 0 1)) testMsgA\<rparr>)"
    using lt len by (simp add: EnqueueTry_atRest [OF r] not_le)
  have p: "slotPayload (appended (seg (testQueue 0 1)) testMsgA) 0 = replicate 16 0"
    using f(6) [of 0] by (simp add: t testQueue_fields testQueue_slots)
  have d: "DequeueTry ((testQueue 0 1)\<lparr>seg := appended (seg (testQueue 0 1)) testMsgA\<rparr>)
         (replicate 16 0xFF)
       = Returns (True, replicate 16 0,
           (testQueue 0 1)\<lparr>seg := removed (appended (seg (testQueue 0 1)) testMsgA)\<rparr>)"
    using DequeueTry_atRest [of "(testQueue 0 1)\<lparr>seg := appended (seg (testQueue 0 1)) testMsgA\<rparr>"
        "replicate 16 0xFF"] f(5)
    by (simp add: f(2,3,4) p testQueue_fields)
  have "replicate 16 0 \<noteq> testMsgA" by (simp add: testMsgA_def)
  with lt len e d show ?thesis by simp
qed

text \<open>
  Claim C3, amended. On a queue at rest with \<open>queue_len < max_len\<close>, for a payload and
  a buffer of \<open>msg_size\<close> bytes, \<open>EnqueueTry\<close> returns true and the \<open>DequeueTry\<close> that
  follows returns true and restores \<open>queue_len\<close>; it yields the payload byte for byte
  when the queue was empty, and otherwise the oldest payload, the one in slot
  \<open>start_idx\<close>.
\<close>

theorem roundtrip_fifo:
  assumes "atRest (seg q)" "queueLenOf (seg q) < maxLenOf (seg q)"
    and "length p = unat (msgSizeOf (seg q))" "length buf = unat (msgSizeOf (seg q))"
  shows "\<exists>q1 q2. EnqueueTry q p = Returns (True, q1)
           \<and> DequeueTry q1 buf
               = Returns (True,
                   (if queueLenOf (seg q) = 0 then p
                    else slotPayload (seg q) (startIdxOf (seg q))), q2)
           \<and> getQueueLen (seg q2) = Returns (queueLenOf (seg q))"
proof -
  let ?s = "seg q"
  let ?q1 = "q\<lparr>seg := appended ?s p\<rparr>"
  let ?q2 = "?q1\<lparr>seg := removed (appended ?s p)\<rparr>"
  note f = appended_facts [OF assms(1-3)]
  note il = atRest_locks(6) [OF assms(1)]
  have ne: "queueLenOf (appended ?s p) \<noteq> 0"
    unfolding f(4) using unat_succ [OF assms(2)] by (auto simp add: word_unat_eq_iff)
  note g = removed_facts [OF f(5) ne]
  have e: "EnqueueTry q p = Returns (True, ?q1)"
    using assms(2,3) by (simp add: EnqueueTry_atRest [OF assms(1)] not_le)
  have pl: "slotPayload (appended ?s p) (startIdxOf ?s)
      = (if queueLenOf ?s = 0 then p else slotPayload ?s (startIdxOf ?s))"
    using f(6) [OF il] tailIdx_empty [OF assms(1)] tailIdx_not_start [OF assms(1) _ assms(2)]
    by auto
  have d: "DequeueTry ?q1 buf
      = Returns (True, (if queueLenOf ?s = 0 then p else slotPayload ?s (startIdxOf ?s)), ?q2)"
    using DequeueTry_atRest [of ?q1 buf] f(5) ne assms(4)
    by (simp add: f(2,3) pl)
  have "32 \<le> length (mem (removed (appended ?s p)))"
    using g(5) by (simp add: atRest_def wellSized_header)
  then have "getQueueLen (seg ?q2) = Returns (queueLenOf ?s)"
    by (simp add: getters_eq g(4) f(4))
  with e d show ?thesis by blast
qed

theorem roundtrip_fifo_witness:
  "atRest (seg (testQueue 3 0))
   \<and> queueLenOf (seg (testQueue 3 0)) < maxLenOf (seg (testQueue 3 0))
   \<and> length testMsgA = unat (msgSizeOf (seg (testQueue 3 0)))
   \<and> (\<exists>q1 q2. EnqueueTry (testQueue 3 0) testMsgA = Returns (True, q1)
           \<and> DequeueTry q1 (replicate 16 0) = Returns (True, testMsgA, q2)
           \<and> getQueueLen (seg q2) = Returns 0)"
proof -
  have r: "atRest (seg (testQueue 3 0))" by (simp add: testQueue_atRest)
  have lt: "queueLenOf (seg (testQueue 3 0)) < maxLenOf (seg (testQueue 3 0))"
    and len: "length testMsgA = unat (msgSizeOf (seg (testQueue 3 0)))"
    and len': "length (replicate 16 (0 :: byte)) = unat (msgSizeOf (seg (testQueue 3 0)))"
    by (simp_all add: testQueue_fields testMsgA_def)
  from roundtrip_fifo [OF r lt len len'] r lt len show ?thesis
    by (simp add: testQueue_fields)
qed

text \<open>
  \<open>copiesUnlocked held es\<close>: in the run \<open>es\<close>, started with the header lock held or not,
  no payload is copied while the header lock is held.
\<close>

fun copiesUnlocked :: "bool \<Rightarrow> event list \<Rightarrow> bool" where
  "copiesUnlocked held [] = True"
| "copiesUnlocked held (LockHeader # es) = copiesUnlocked True es"
| "copiesUnlocked held (UnlockHeader # es) = copiesUnlocked False es"
| "copiesUnlocked held (CopyIn idx # es) = (\<not> held \<and> copiesUnlocked held es)"
| "copiesUnlocked held (CopyOut idx # es) = (\<not> held \<and> copiesUnlocked held es)"
| "copiesUnlocked held (LockMsg idx # es) = copiesUnlocked held es"
| "copiesUnlocked held (UnlockMsg idx # es) = copiesUnlocked held es"

lemma enqueue_events:
  "events (appended s msg)
     = events s @ [LockHeader, LockMsg (tailIdx s), CopyIn (tailIdx s), UnlockHeader,
                   UnlockMsg (tailIdx s)]"
  "events (shifted s msg)
     = events s @ [LockHeader, LockMsg (tailIdx s), CopyIn (tailIdx s), UnlockHeader,
                   UnlockMsg (tailIdx s)]"
  by (simp_all add: appended_def shifted_def)

lemma dequeue_events:
  "events (removed s)
     = events s @ [LockHeader, LockMsg (startIdxOf s), UnlockHeader, CopyOut (startIdxOf s),
                   UnlockMsg (startIdxOf s)]"
  by (simp add: removed_def)

text \<open>
  Claim C5 holds for the two dequeues and fails for the three enqueues, which copy the
  payload between \<open>lockMsg\<close> and \<open>unlockHeader\<close>. On the empty test queue
  \<open>EnqueueTry\<close>, \<open>EnqueueShift\<close> and \<open>EnqueueBlock\<close> run lock-header, lock-slot, copy,
  unlock-header, unlock-slot; on the full one \<open>EnqueueShift\<close> does the same; on the test
  queue with one message \<open>DequeueTry\<close> and \<open>DequeueBlock\<close> run lock-header, lock-slot,
  unlock-header, copy, unlock-slot.
\<close>

theorem enqueue_copies_under_header_lock:
  "EnqueueTry (testQueue 0 0) testMsgA
     = Returns (True, (testQueue 0 0)\<lparr>seg := appended (seg (testQueue 0 0)) testMsgA\<rparr>)
   \<and> EnqueueShift (testQueue 0 0) testMsgA
     = Returns ((testQueue 0 0)\<lparr>seg := appended (seg (testQueue 0 0)) testMsgA\<rparr>)
   \<and> EnqueueBlock \<lparr>Done = (\<lambda>i. False), Err = Canceled\<rparr> (testQueue 0 0) testMsgA
     = Returns (None, (testQueue 0 0)\<lparr>seg := appended (seg (testQueue 0 0)) testMsgA\<rparr>)
   \<and> events (appended (seg (testQueue 0 0)) testMsgA)
     = [LockHeader, LockMsg 0, CopyIn 0, UnlockHeader, UnlockMsg 0]
   \<and> \<not> copiesUnlocked False (events (appended (seg (testQueue 0 0)) testMsgA))
   \<and> EnqueueShift (testQueue 0 5) testMsgA
     = Returns ((testQueue 0 5)\<lparr>seg := shifted (seg (testQueue 0 5)) testMsgA\<rparr>)
   \<and> events (shifted (seg (testQueue 0 5)) testMsgA)
     = [LockHeader, LockMsg 0, CopyIn 0, UnlockHeader, UnlockMsg 0]
   \<and> \<not> copiesUnlocked False (events (shifted (seg (testQueue 0 5)) testMsgA))
   \<and> DequeueTry (testQueue 0 1) (replicate 16 0xFF)
     = Returns (True, replicate 16 0, (testQueue 0 1)\<lparr>seg := removed (seg (testQueue 0 1))\<rparr>)
   \<and> DequeueBlock \<lparr>Done = (\<lambda>i. False), Err = Canceled\<rparr> (testQueue 0 1) (replicate 16 0xFF)
     = Returns (None, replicate 16 0, (testQueue 0 1)\<lparr>seg := removed (seg (testQueue 0 1))\<rparr>)
   \<and> events (removed (seg (testQueue 0 1)))
     = [LockHeader, LockMsg 0, UnlockHeader, CopyOut 0, UnlockMsg 0]
   \<and> copiesUnlocked False (events (removed (seg (testQueue 0 1))))"
proof -
  have r0: "atRest (seg (testQueue 0 0))" and r5: "atRest (seg (testQueue 0 5))"
    and r1: "atRest (seg (testQueue 0 1))"
    by (simp_all add: testQueue_atRest)
  have t0: "tailIdx (seg (testQueue 0 0)) = 0" and t5: "tailIdx (seg (testQueue 0 5)) = 0"
    by (simp_all add: tailIdx_def testQueue_fields)
  show ?thesis
    by (simp add: EnqueueTry_atRest [OF r0] EnqueueShift_atRest [OF r0]
          EnqueueBlock_atRest [OF r0] EnqueueShift_atRest [OF r5] DequeueTry_atRest [OF r1]
          DequeueBlock_atRest [OF r1] enqueue_events dequeue_events t0 t5 testQueue_fields
          testQueue_slots testMsgA_def)
qed

text \<open>\<open>Create\<close>: the header it writes.\<close>

lemma setMagic_loop_eq:
  assumes "8 \<le> length m" "i \<le> 8"
  shows "setMagic_loop m i = Returns (take i m @ drop i magic @ drop 8 m)"
  using assms
proof (induction m i rule: setMagic_loop.induct)
  case (1 m i)
  show ?case
  proof (cases "i < 8")
    case False
    with "1.prems" have "i = 8" by simp
    then show ?thesis by (subst setMagic_loop.simps) (simp add: endMagic_def)
  next
    case True
    then have il: "i < length m" using "1.prems" by simp
    have IH: "setMagic_loop (m[i := magic ! i]) (i + 1)
        = Returns (take (i + 1) (m[i := magic ! i]) @ drop (i + 1) magic
                   @ drop 8 (m[i := magic ! i]))"
      using "1.IH" True il "1.prems" by (simp add: endMagic_def)
    have a: "take (i + 1) (m[i := magic ! i]) = take i m @ [magic ! i]"
      using il by (simp add: take_Suc_conv_app_nth)
    have b: "drop i magic = magic ! i # drop (i + 1) magic"
      using True by (simp add: Cons_nth_drop_Suc)
    have c: "drop 8 (m[i := magic ! i]) = drop 8 m" using True by simp
    show ?thesis
      using True il IH a b c by (subst setMagic_loop.simps) (simp add: endMagic_def)
  qed
qed

lemma setMagic_eq: "8 \<le> length (mem s) \<Longrightarrow> setMagic s = Returns (poke s 0 magic)"
proof -
  assume h: "8 \<le> length (mem s)"
  have "setMagic_loop (mem s) 0 = Returns (take 0 (mem s) @ drop 0 magic @ drop 8 (mem s))"
    using h by (intro setMagic_loop_eq) simp_all
  then have "setMagic_loop (mem s) 0 = Returns (splice (mem s) 0 magic)"
    by (simp add: splice_def)
  then show ?thesis
    by (simp add: setMagic_def startMagic_def poke_def)
qed


definition formatted :: "segment \<Rightarrow> uint32 \<Rightarrow> uint32 \<Rightarrow> segment" where
  "formatted s msgSize maxLen =
     wr32 (wr32 (wr32 (wr32 (poke s 0 magic) 12 msgSize) 8 maxLen) 24 0) 28 0"

lemma formatted_facts:
  assumes "32 \<le> length (mem s)"
  shows "maxLenOf (formatted s z n) = n" "msgSizeOf (formatted s z n) = z"
    "startIdxOf (formatted s z n) = 0" "queueLenOf (formatted s z n) = 0"
    "length (mem (formatted s z n)) = length (mem s)"
    "byteOrder (formatted s z n) = byteOrder s" "events (formatted s z n) = events s"
    "peek (formatted s z n) 0 8 = magic"
    "32 \<le> a \<Longrightarrow> a + k \<le> length (mem s) \<Longrightarrow> peek (formatted s z n) a k = peek s a k"
    "lockWord (formatted s z n) 16 = lockWord s 16"
  using assms
  by (simp_all add: formatted_def maxLenOf_def msgSizeOf_def startIdxOf_def queueLenOf_def
        wr32_poke rd32_peek peek_poke_same peek_poke_other lockWord_def)

lemma detectByteOrder_native [simp]: "detectByteOrder h = native h"
  by (cases "native h") (simp_all add: detectByteOrder_def)

lemma format_eq:
  assumes "32 \<le> length m"
  shows "andThen (setMagic (newSegment h m sp)) (\<lambda>s.
         andThen (setMsgSize s z) (\<lambda>s.
         andThen (setMaxLen s n) (\<lambda>s.
         andThen (setStartIdx s 0) (\<lambda>s.
         andThen (setQueueLen s 0) (\<lambda>s.
         Returns (Inr (newQueue k i s)))))))
       = Returns (Inr (newQueue k i (formatted (newSegment h m sp) z n)))"
proof -
  have "32 \<le> length (mem (newSegment h m sp))" using assms by (simp add: newSegment_def)
  then show ?thesis
    by (simp add: setMagic_eq setters_eq formatted_def wr32_poke)
qed

lemma Create_new:
  assumes "SysvShmGet h k (totalShmSize (w * 8) n) access = Inl ENOENT"
    and "SysvShmGet h k (totalShmSize (w * 8) n) (access OR IPC_CREAT OR IPC_EXCL) = Inr i"
    and "SysvShmAttach h i = Inr m" and "32 \<le> length m"
  shows "Create h k w n
       = Returns (Inr (newQueue k i (formatted (newSegment h m []) (w * 8) n)))"
  using assms(1-3) format_eq [OF assms(4)] by (simp add: Create_def Let_def)

text \<open>
  \<open>cut n s\<close> is the segment \<open>s\<close> after \<open>mem = mem[:n]\<close>: the length is \<open>n\<close>, the array
  and the capacity are those of \<open>s\<close>. The getters and the setters of the header go
  through slice expressions and do not see the cut.
\<close>

definition cut :: "nat \<Rightarrow> segment \<Rightarrow> segment" where
  "cut n s = s\<lparr>mem := take n (mem s), spare := drop n (mem s) @ spare s\<rparr>"

lemma cut_simps [simp]:
  "backing (cut n s) = backing s" "byteOrder (cut n s) = byteOrder s"
  "events (cut n s) = events s" "mem (cut n s) = take n (mem s)"
  by (simp_all add: cut_def backing_def)

lemma newSegment_cut: "newSegment h (take n m) (drop n m) = cut n (newSegment h m [])"
  by (simp add: newSegment_def cut_def)

lemma drop_take_drop: "n \<le> l \<Longrightarrow> drop n (take l xs) @ drop l xs = drop n xs"
proof -
  assume "n \<le> l"
  then have "drop l xs = drop (l - n) (drop n xs)" by simp
  moreover have "drop n (take l xs) = take (l - n) (drop n xs)" by (simp add: drop_take)
  ultimately show ?thesis by (simp only: append_take_drop_id)
qed

lemma setBacking_cut:
  "n \<le> length (mem s) \<Longrightarrow> setBacking (cut n s) m = cut n (setBacking s m)"
  by (simp add: setBacking_def cut_def min_def drop_take_drop)

lemma getField_cut: "getField (cut n s) a b = getField s a b"
  by (simp add: getField_def)

lemma setField_cut:
  "n \<le> length (mem s) \<Longrightarrow> b \<le> length (mem s) \<Longrightarrow> b = a + 4 \<Longrightarrow>
   setField (cut n s) a b v = Returns (cut n (wr32 s a v))"
  using setField_eq [of b s a v]
  by (simp add: setField_def setBacking_cut)

lemma setMagic_cut:
  assumes "8 \<le> n" "n \<le> length (mem s)"
  shows "setMagic (cut n s) = Returns (cut n (poke s 0 magic))"
proof -
  have "setMagic (cut n s) = Returns (poke (cut n s) 0 magic)"
    using assms by (intro setMagic_eq) simp
  moreover have "poke (cut n s) 0 magic = cut n (poke s 0 magic)"
    using assms by (simp add: poke_def cut_def splice_def drop_take)
  ultimately show ?thesis by simp
qed

lemma getters_cut:
  assumes "32 \<le> length (mem s)"
  shows "getMaxLen (cut n s) = Returns (maxLenOf s)" "getMsgSize (cut n s) = Returns (msgSizeOf s)"
    "getStartIdx (cut n s) = Returns (startIdxOf s)"
    "getQueueLen (cut n s) = Returns (queueLenOf s)"
  using getters_eq [OF assms] by (simp_all add: header_getters getField_cut)

lemma format_cut:
  assumes "8 \<le> c" "c \<le> length m" "32 \<le> length m"
  shows "andThen (setMagic (newSegment h (take c m) (drop c m))) (\<lambda>s.
         andThen (setMsgSize s z) (\<lambda>s.
         andThen (setMaxLen s n) (\<lambda>s.
         andThen (setStartIdx s 0) (\<lambda>s.
         andThen (setQueueLen s 0) (\<lambda>s.
         Returns (Inr (newQueue k i s)))))))
       = Returns (Inr (newQueue k i (cut c (formatted (newSegment h m []) z n))))"
proof -
  have "32 \<le> length (mem (newSegment h m []))" "c \<le> length (mem (newSegment h m []))"
    using assms by (simp_all add: newSegment_def)
  then show ?thesis
    using assms(1)
    by (simp add: newSegment_cut setMagic_cut header_setters layout setField_cut
          formatted_def wr32_poke)
qed

lemma Create_reuse:
  assumes "SysvShmGet h k (totalShmSize (w * 8) n) access = Inr i"
    and "SysvShmAttach h i = Inr m"
    and "totalShmSize (w * 8) n \<le> int (length m)" and "8 \<le> totalShmSize (w * 8) n"
    and "32 \<le> length m"
  shows "Create h k w n
       = Returns (Inr (newQueue k i
           (cut (nat (totalShmSize (w * 8) n)) (formatted (newSegment h m []) (w * 8) n))))"
proof -
  have "8 \<le> nat (totalShmSize (w * 8) n)" "nat (totalShmSize (w * 8) n) \<le> length m"
    using assms(3,4) by simp_all
  from format_cut [OF this assms(5)] assms show ?thesis
    by (simp add: Create_def Let_def)
qed

text \<open>
  Where the reuse fails. With a requested size of 0 the slice is empty and \<open>setMagic\<close>
  panics at its first byte. With a segment of fewer than 32 bytes the header does not
  fit the array and a setter panics at its slice expression.
\<close>

lemma Create_reuse_empty:
  assumes "SysvShmGet h k (totalShmSize (w * 8) n) access = Inr i"
    and "SysvShmAttach h i = Inr m" and "totalShmSize (w * 8) n = 0"
  shows "Create h k w n = Panics IndexOutOfRange"
proof -
  have "setMagic_loop [] 0 = Panics IndexOutOfRange"
    by (subst setMagic_loop.simps) (simp add: endMagic_def)
  then have "setMagic (newSegment h [] m) = Panics IndexOutOfRange"
    by (simp add: setMagic_def newSegment_def startMagic_def)
  with assms show ?thesis by (simp add: Create_def Let_def)
qed

lemma Create_reuse_short:
  assumes "SysvShmGet h k (totalShmSize (w * 8) n) access = Inr i"
    and "SysvShmAttach h i = Inr m"
    and "totalShmSize (w * 8) n \<le> int (length m)" and "8 \<le> totalShmSize (w * 8) n"
    and "length m < 32"
  shows "Create h k w n = Panics SliceBoundsOutOfRange"
proof -
  let ?c = "nat (totalShmSize (w * 8) n)"
  let ?s0 = "newSegment h (take ?c m) (drop ?c m)"
  have c: "8 \<le> ?c" "?c \<le> length m" using assms(3,4) by simp_all
  have "8 \<le> length (mem ?s0)" using c by (simp add: newSegment_def)
  then have m: "setMagic ?s0 = Returns (poke ?s0 0 magic)" by (rule setMagic_eq)
  let ?s1 = "poke ?s0 0 magic"
  have l1: "length (backing ?s1) = length m"
    using c by (simp add: newSegment_def)
  have "andThen (setMsgSize ?s1 (w * 8)) (\<lambda>s.
        andThen (setMaxLen s n) (\<lambda>s.
        andThen (setStartIdx s 0) (\<lambda>s.
        andThen (setQueueLen s 0) (\<lambda>s.
        Returns (Inr (newQueue k i s)))))) = Panics SliceBoundsOutOfRange"
    using assms(5) l1
    by (auto simp add: header_setters layout setField_def not_less splice_def
          simp del: length_backing)
  with m assms(1-3) show ?thesis by (simp add: Create_def Let_def)
qed

text \<open>The size \<open>Create\<close> asks for.\<close>

lemma totalShmSize_wraps:
  "totalShmSize z n = (32 + (uint z + 8) * uint n) mod 2 ^ 32"
proof -
  have "(32 + (z + 8) * n :: uint32) = word_of_int (32 + (uint z + 8) * uint n)"
    by simp
  then have "uint (32 + (z + 8) * n :: uint32) = (32 + (uint z + 8) * uint n) mod 2 ^ 32"
    by (simp only: uint_word_of_int) simp
  then show ?thesis by (simp add: totalShmSize_def sizes)
qed

lemma words_to_bytes: "uint (w * 8 :: uint32) = (uint w * 8) mod 2 ^ 32"
proof -
  have "(w * 8 :: uint32) = word_of_int (uint w * 8)" by simp
  then show ?thesis by (simp only: uint_word_of_int) simp
qed

lemma totalShmSize_exact:
  assumes "uint w * 8 < 2 ^ 32" "32 + uint n * (8 + uint w * 8) < 2 ^ 32"
  shows "uint (w * 8 :: uint32) = uint w * 8"
    "totalShmSize (w * 8) n = 32 + uint n * (8 + uint w * 8)"
proof -
  show a: "uint (w * 8 :: uint32) = uint w * 8"
    using assms(1) by (simp add: words_to_bytes)
  have "0 \<le> 32 + uint n * (8 + uint w * 8)" by simp
  then show "totalShmSize (w * 8) n = 32 + uint n * (8 + uint w * 8)"
    unfolding totalShmSize_wraps a using assms(2) by (simp add: mult.commute add.commute)
qed

lemma totalShmSize_words: "8 dvd totalShmSize (w * 8) n"
proof -
  have "(8 :: int) dvd 2 ^ 32" by simp
  then have "8 dvd (32 + (uint (w * 8) + 8) * uint n) mod 2 ^ 32
           \<longleftrightarrow> 8 dvd 32 + (uint (w * 8) + 8) * uint n"
    by (rule dvd_mod_iff)
  moreover have "8 dvd uint (w * 8)"
    using dvd_mod_iff [of "8 :: int" "2 ^ 32" "uint w * 8"] by (simp add: words_to_bytes)
  ultimately show ?thesis by (simp add: totalShmSize_wraps)
qed

text \<open>
  Two hosts for concrete runs. \<open>emptyHost\<close> is a little-endian machine with no segment:
  a probe finds none, a creation gives a zeroed segment of the size asked for (its
  identifier is that size). \<open>hostWith k0 m0\<close> holds one segment, \<open>m0\<close>, under the key
  \<open>k0\<close> and the identifier 7.
\<close>

definition emptyHost :: host where
  "emptyHost =
     \<lparr>SysvShmGet = (\<lambda>k size flag. if flag AND IPC_CREAT = 0 then Inl ENOENT else Inr size),
      SysvShmAttach = (\<lambda>i. Inr (replicate (nat i) 0)),
      SysvShmCtl_RMID = (\<lambda>i. Inr 0),
      native = LittleEndian\<rparr>"

definition hostWith :: "int \<Rightarrow> byte list \<Rightarrow> host" where
  "hostWith k0 m0 =
     \<lparr>SysvShmGet = (\<lambda>k size flag.
        if k \<noteq> k0 then (if flag AND IPC_CREAT = 0 then Inl ENOENT else Inr size)
        else if flag AND IPC_CREAT \<noteq> 0 \<and> flag AND IPC_EXCL \<noteq> 0 then Inl EEXIST
        else if int (length m0) < size then Inl EINVAL
        else Inr 7),
      SysvShmAttach = (\<lambda>i. if i = 7 then Inr m0 else Inr (replicate (nat i) 0)),
      SysvShmCtl_RMID = (\<lambda>i. Inr 0),
      native = LittleEndian\<rparr>"

lemma flags [simp]:
  "access AND IPC_CREAT = 0" "(access OR IPC_CREAT OR IPC_EXCL) AND IPC_CREAT \<noteq> 0"
  "(access OR IPC_CREAT OR IPC_EXCL) AND IPC_EXCL \<noteq> 0"
  by (simp_all add: access_def IPC_CREAT_def IPC_EXCL_def)


text \<open>
  Claim C7, as stated, fails where the sizes leave 32 bits: \<open>Create\<close> multiplies and
  adds in \<open>uint32\<close>. For \<open>msg_size_words = 2^29\<close> and \<open>max_len = 1\<close> the message size in
  bytes is 0 and the size asked for is 40, not \<open>32 + 1 * (8 + 2^32)\<close>.
\<close>

theorem create_size_counterexample:
  "(536870912 * 8 :: uint32) = 0
   \<and> totalShmSize (536870912 * 8) 1 = 40
   \<and> totalShmSize (536870912 * 8) 1
       \<noteq> 32 + uint (1 :: uint32) * (8 + uint (536870912 :: uint32) * 8)"
  by (simp add: totalShmSize_wraps)

text \<open>
  Claim C7, amended. \<open>Create\<close> turns \<open>msg_size_words\<close> into
  \<open>msg_size_words * 8 mod 2^32\<close> bytes and passes to every \<open>SysvShmGet\<close> the size
  \<open>(32 + max_len * (8 + msg_size_bytes)) mod 2^32\<close>. When \<open>msg_size_words * 8\<close> and
  \<open>32 + max_len * (8 + msg_size_words * 8)\<close> are below \<open>2^32\<close>, these are
  \<open>msg_size_words * 8\<close> and \<open>32 + max_len * (8 + msg_size_bytes)\<close>, and on a host
  where the key is free and the creation and the attachment succeed, the getters of the
  new queue report \<open>msg_size_bytes\<close>, \<open>max_len\<close>, \<open>start_idx = 0\<close> and \<open>queue_len = 0\<close>.
\<close>

theorem create_size:
  "uint (w * 8 :: uint32) = (uint w * 8) mod 2 ^ 32
   \<and> totalShmSize (w * 8) n = (32 + uint n * (8 + uint (w * 8))) mod 2 ^ 32
   \<and> (uint w * 8 < 2 ^ 32 \<and> 32 + uint n * (8 + uint w * 8) < 2 ^ 32 \<longrightarrow>
        uint (w * 8 :: uint32) = uint w * 8
        \<and> totalShmSize (w * 8) n = 32 + uint n * (8 + uint w * 8)
        \<and> (SysvShmGet h k (32 + uint n * (8 + uint w * 8)) access = Inl ENOENT
             \<and> SysvShmGet h k (32 + uint n * (8 + uint w * 8))
                  (access OR IPC_CREAT OR IPC_EXCL) = Inr i
             \<and> SysvShmAttach h i = Inr m
             \<and> int (length m) = 32 + uint n * (8 + uint w * 8) \<longrightarrow>
             (\<exists>q. Create h k w n = Returns (Inr q)
                \<and> length (mem (seg q)) = length m
                \<and> getMsgSize (seg q) = Returns (w * 8) \<and> getMaxLen (seg q) = Returns n
                \<and> getStartIdx (seg q) = Returns 0 \<and> getQueueLen (seg q) = Returns 0)))"
proof -
  have a: "uint (w * 8 :: uint32) = (uint w * 8) mod 2 ^ 32" by (rule words_to_bytes)
  have b: "totalShmSize (w * 8) n = (32 + uint n * (8 + uint (w * 8))) mod 2 ^ 32"
    by (simp add: totalShmSize_wraps mult.commute add.commute)
  have c: "uint (w * 8 :: uint32) = uint w * 8
        \<and> totalShmSize (w * 8) n = 32 + uint n * (8 + uint w * 8)
        \<and> (SysvShmGet h k (32 + uint n * (8 + uint w * 8)) access = Inl ENOENT
             \<and> SysvShmGet h k (32 + uint n * (8 + uint w * 8))
                  (access OR IPC_CREAT OR IPC_EXCL) = Inr i
             \<and> SysvShmAttach h i = Inr m
             \<and> int (length m) = 32 + uint n * (8 + uint w * 8) \<longrightarrow>
             (\<exists>q. Create h k w n = Returns (Inr q)
                \<and> length (mem (seg q)) = length m
                \<and> getMsgSize (seg q) = Returns (w * 8) \<and> getMaxLen (seg q) = Returns n
                \<and> getStartIdx (seg q) = Returns 0 \<and> getQueueLen (seg q) = Returns 0))"
    if h: "uint w * 8 < 2 ^ 32" "32 + uint n * (8 + uint w * 8) < 2 ^ 32"
  proof (intro conjI impI)
    note t = totalShmSize_exact [OF h]
    show "uint (w * 8 :: uint32) = uint w * 8" by (rule t(1))
    show "totalShmSize (w * 8) n = 32 + uint n * (8 + uint w * 8)" by (rule t(2))
    assume g: "SysvShmGet h k (32 + uint n * (8 + uint w * 8)) access = Inl ENOENT
             \<and> SysvShmGet h k (32 + uint n * (8 + uint w * 8))
                  (access OR IPC_CREAT OR IPC_EXCL) = Inr i
             \<and> SysvShmAttach h i = Inr m
             \<and> int (length m) = 32 + uint n * (8 + uint w * 8)"
    then have "32 \<le> int (length m)" by simp
    then have len: "32 \<le> length m" by simp
    then have l: "32 \<le> length (mem (newSegment h m []))" by (simp add: newSegment_def)
    from g have "Create h k w n
        = Returns (Inr (newQueue k i (formatted (newSegment h m []) (w * 8) n)))"
      by (intro Create_new) (simp_all add: t(2) len)
    moreover have "length (mem (formatted (newSegment h m []) (w * 8) n)) = length m"
      using l by (simp add: formatted_facts newSegment_def)
    ultimately show "\<exists>q. Create h k w n = Returns (Inr q)
                \<and> length (mem (seg q)) = length m
                \<and> getMsgSize (seg q) = Returns (w * 8) \<and> getMaxLen (seg q) = Returns n
                \<and> getStartIdx (seg q) = Returns 0 \<and> getQueueLen (seg q) = Returns 0"
      using l by (simp add: newQueue_def getters_eq formatted_facts)
  qed
  from a b c show ?thesis by blast
qed

theorem create_size_witness:
  "uint (4 :: uint32) * 8 < 2 ^ 32 \<and> 32 + uint (16 :: uint32) * (8 + uint (4 :: uint32) * 8) < 2 ^ 32
   \<and> totalShmSize (4 * 8) 16 = 672
   \<and> SysvShmGet emptyHost 1 672 access = Inl ENOENT
   \<and> SysvShmGet emptyHost 1 672 (access OR IPC_CREAT OR IPC_EXCL) = Inr 672
   \<and> SysvShmAttach emptyHost 672 = Inr (replicate 672 0)
   \<and> (\<exists>q. Create emptyHost 1 4 16 = Returns (Inr q)
          \<and> length (mem (seg q)) = 672
          \<and> getMsgSize (seg q) = Returns 32 \<and> getMaxLen (seg q) = Returns 16
          \<and> getStartIdx (seg q) = Returns 0 \<and> getQueueLen (seg q) = Returns 0)"
  using create_size [of 4 16 emptyHost 1 672 "replicate 672 0"]
  by (simp add: emptyHost_def)


text \<open>
  The segment that the test "do not create new and use previous if it is bigger" leaves
  behind: \<open>Create(key, 4, 16)\<close> on a zeroed segment of 672 bytes, then \<open>setStartIdx(5)\<close>
  and \<open>setQueueLen(10)\<close>.
\<close>

definition prevSegment :: segment where
  "prevSegment =
     wr32 (wr32 (formatted \<lparr>mem = replicate 672 0, spare = [], byteOrder = LittleEndian,
                              events = []\<rparr>
                   32 16) 24 5) 28 10"

lemma prevSegment_facts:
  "length (mem prevSegment) = 672" "maxLenOf prevSegment = 16" "msgSizeOf prevSegment = 32"
  "startIdxOf prevSegment = 5" "queueLenOf prevSegment = 10"
  by (simp_all add: prevSegment_def wr32_poke shape_poke fields_poke field_written
        formatted_facts)

text \<open>
  Claim C8, as stated, fails: \<open>Create\<close> writes the header whether the segment is new or
  not. With the segment above under key 1 (\<open>max_len = 16\<close>, \<open>msg_size = 32\<close>),
  \<open>Create(1, 3, 15)\<close> asks for 512 bytes, reuses the segment and returns a queue whose
  getters report \<open>max_len = 15\<close> and \<open>msg_size = 24\<close>, as the test asserts.
\<close>

theorem create_reuse_counterexample:
  "getMaxLen prevSegment = Returns 16 \<and> getMsgSize prevSegment = Returns 32
   \<and> totalShmSize (3 * 8) 15 = 512
   \<and> SysvShmGet (hostWith 1 (mem prevSegment)) 1 512 access = Inr 7
   \<and> Create (hostWith 1 (mem prevSegment)) 1 3 15
       = Returns (Inr (newQueue 1 7
           (cut 512 (formatted (newSegment (hostWith 1 (mem prevSegment)) (mem prevSegment) [])
              24 15))))
   \<and> getMaxLen (cut 512 (formatted (newSegment (hostWith 1 (mem prevSegment))
          (mem prevSegment) []) 24 15)) = Returns 15
   \<and> getMsgSize (cut 512 (formatted (newSegment (hostWith 1 (mem prevSegment))
          (mem prevSegment) []) 24 15)) = Returns 24"
proof -
  let ?h = "hostWith 1 (mem prevSegment)"
  have t: "totalShmSize (3 * 8) 15 = 512" and t': "totalShmSize 24 15 = 512"
    by (simp_all add: totalShmSize_wraps)
  have g: "SysvShmGet ?h 1 512 access = Inr 7"
    by (simp add: hostWith_def prevSegment_facts)
  have a: "SysvShmAttach ?h 7 = Inr (mem prevSegment)" by (simp add: hostWith_def)
  have c: "Create ?h 1 3 15
       = Returns (Inr (newQueue 1 7
           (cut 512 (formatted (newSegment ?h (mem prevSegment) []) 24 15))))"
    using Create_reuse [of ?h 1 3 15 7 "mem prevSegment"] g a
    by (simp add: t' prevSegment_facts)
  have l: "32 \<le> length (mem (newSegment ?h (mem prevSegment) []))"
    by (simp add: newSegment_def prevSegment_facts)
  then have l': "32 \<le> length (mem (formatted (newSegment ?h (mem prevSegment) []) 24 15))"
    by (simp add: formatted_facts)
  have p: "32 \<le> length (mem prevSegment)" by (simp add: prevSegment_facts)
  show ?thesis
    using t' g c l
    by (simp add: getters_eq [OF p] prevSegment_facts getters_cut [OF l'] formatted_facts)
qed

text \<open>
  Claim C8, amended. When \<open>Create(key, m, n)\<close> finds a segment under the key and attaches
  it, and the segment holds at least 32 bytes and at least the size asked for, which is
  \<open>(32 + n * (8 + m * 8)) mod 2^32\<close>, and that size is not 0, then it returns a queue
  over the first bytes of that segment, as many as it asked for, whose getters report the
  requested \<open>msg_size = m * 8\<close> and \<open>max_len = n\<close>, and \<open>start_idx = 0\<close> and
  \<open>queue_len = 0\<close>, whatever the segment held before. When the size asked for is 0,
  \<open>Create\<close> panics with an index out of range; when it is not 0 and the segment holds
  fewer than 32 bytes, \<open>Create\<close> panics with slice bounds out of range.
\<close>

theorem create_reuse:
  assumes "SysvShmGet h k (totalShmSize (w * 8) n) access = Inr i"
    and "SysvShmAttach h i = Inr m"
    and "totalShmSize (w * 8) n \<le> int (length m)"
  shows "(totalShmSize (w * 8) n \<noteq> 0 \<and> 32 \<le> length m \<longrightarrow>
            (\<exists>q. Create h k w n = Returns (Inr q)
               \<and> int (length (mem (seg q))) = totalShmSize (w * 8) n
               \<and> getMsgSize (seg q) = Returns (w * 8) \<and> getMaxLen (seg q) = Returns n
               \<and> getStartIdx (seg q) = Returns 0 \<and> getQueueLen (seg q) = Returns 0))
       \<and> (totalShmSize (w * 8) n = 0 \<longrightarrow> Create h k w n = Panics IndexOutOfRange)
       \<and> (totalShmSize (w * 8) n \<noteq> 0 \<and> length m < 32 \<longrightarrow>
            Create h k w n = Panics SliceBoundsOutOfRange)"
proof (intro conjI impI)
  have pos: "8 \<le> totalShmSize (w * 8) n" if "totalShmSize (w * 8) n \<noteq> 0"
  proof -
    have "0 \<le> totalShmSize (w * 8) n" by (simp add: totalShmSize_def)
    with that totalShmSize_words [of w n] show ?thesis by (auto elim!: dvdE)
  qed
  {
    assume h: "totalShmSize (w * 8) n \<noteq> 0 \<and> 32 \<le> length m"
    let ?s = "formatted (newSegment h m []) (w * 8) n"
    have l: "32 \<le> length (mem (newSegment h m []))" using h by (simp add: newSegment_def)
    then have l': "32 \<le> length (mem ?s)" by (simp add: formatted_facts)
    have "Create h k w n = Returns (Inr (newQueue k i (cut (nat (totalShmSize (w * 8) n)) ?s)))"
      using assms pos h by (intro Create_reuse) simp_all
    moreover have "int (length (mem (cut (nat (totalShmSize (w * 8) n)) ?s)))
        = totalShmSize (w * 8) n"
      using l assms(3) pos h by (simp add: formatted_facts newSegment_def)
    ultimately show "\<exists>q. Create h k w n = Returns (Inr q)
               \<and> int (length (mem (seg q))) = totalShmSize (w * 8) n
               \<and> getMsgSize (seg q) = Returns (w * 8) \<and> getMaxLen (seg q) = Returns n
               \<and> getStartIdx (seg q) = Returns 0 \<and> getQueueLen (seg q) = Returns 0"
      using l by (simp add: newQueue_def getters_cut [OF l'] formatted_facts)
  }
  {
    assume "totalShmSize (w * 8) n = 0"
    with assms(1,2) show "Create h k w n = Panics IndexOutOfRange"
      by (rule Create_reuse_empty)
  }
  {
    assume h: "totalShmSize (w * 8) n \<noteq> 0 \<and> length m < 32"
    then show "Create h k w n = Panics SliceBoundsOutOfRange"
      using assms pos by (intro Create_reuse_short) simp_all
  }
qed

theorem create_reuse_witness:
  "SysvShmGet (hostWith 1 (mem prevSegment)) 1 (totalShmSize (3 * 8) 15) access = Inr 7
   \<and> SysvShmAttach (hostWith 1 (mem prevSegment)) 7 = Inr (mem prevSegment)
   \<and> totalShmSize (3 * 8) 15 \<le> int (length (mem prevSegment))
   \<and> totalShmSize (3 * 8) 15 \<noteq> 0 \<and> 32 \<le> length (mem prevSegment)
   \<and> (\<exists>q. Create (hostWith 1 (mem prevSegment)) 1 3 15 = Returns (Inr q)
          \<and> int (length (mem (seg q))) = 512
          \<and> getMsgSize (seg q) = Returns 24 \<and> getMaxLen (seg q) = Returns 15
          \<and> getStartIdx (seg q) = Returns 0 \<and> getQueueLen (seg q) = Returns 0)
   \<and> totalShmSize (0 * 8) 536870909 = 8
   \<and> SysvShmGet (hostWith 1 (mem prevSegment)) 1 8 access = Inr 7
   \<and> (\<exists>q. Create (hostWith 1 (mem prevSegment)) 1 0 536870909 = Returns (Inr q)
          \<and> int (length (mem (seg q))) = 8
          \<and> getMsgSize (seg q) = Returns 0 \<and> getMaxLen (seg q) = Returns 536870909
          \<and> getStartIdx (seg q) = Returns 0 \<and> getQueueLen (seg q) = Returns 0)
   \<and> totalShmSize (0 * 8) 536870908 = 0
   \<and> SysvShmGet (hostWith 1 (mem prevSegment)) 1 0 access = Inr 7
   \<and> Create (hostWith 1 (mem prevSegment)) 1 0 536870908 = Panics IndexOutOfRange
   \<and> SysvShmGet (hostWith 1 (replicate 16 0)) 1 8 access = Inr 7
   \<and> SysvShmAttach (hostWith 1 (replicate 16 0)) 7 = Inr (replicate 16 0)
   \<and> Create (hostWith 1 (replicate 16 0)) 1 0 536870909 = Panics SliceBoundsOutOfRange"
proof -
  let ?h = "hostWith 1 (mem prevSegment)"
  let ?h' = "hostWith 1 (replicate 16 0)"
  have t: "totalShmSize 24 15 = 512" "totalShmSize 0 536870909 = 8"
    "totalShmSize 0 536870908 = 0"
    by (simp_all add: totalShmSize_wraps)
  have g: "SysvShmGet ?h 1 (totalShmSize (3 * 8) 15) access = Inr 7"
    "SysvShmGet ?h 1 (totalShmSize (0 * 8) 536870909) access = Inr 7"
    "SysvShmGet ?h 1 (totalShmSize (0 * 8) 536870908) access = Inr 7"
    by (simp_all add: t hostWith_def prevSegment_facts)
  have g': "SysvShmGet ?h' 1 (totalShmSize (0 * 8) 536870909) access = Inr 7"
    by (simp add: t hostWith_def)
  have a: "SysvShmAttach ?h 7 = Inr (mem prevSegment)"
    and a': "SysvShmAttach ?h' 7 = Inr (replicate 16 0)"
    by (simp_all add: hostWith_def)
  have b: "totalShmSize (3 * 8) 15 \<le> int (length (mem prevSegment))"
    "totalShmSize (0 * 8) 536870909 \<le> int (length (mem prevSegment))"
    "totalShmSize (0 * 8) 536870908 \<le> int (length (mem prevSegment))"
    and b': "totalShmSize (0 * 8) 536870909 \<le> int (length (replicate 16 (0 :: byte)))"
    by (simp_all add: t prevSegment_facts)
  have l: "32 \<le> length (mem prevSegment)" by (simp add: prevSegment_facts)
  from create_reuse [OF g(1) a b(1)] create_reuse [OF g(2) a b(2)]
    create_reuse [OF g(3) a b(3)] create_reuse [OF g'(1) a' b']
    g a b l g' a'
  show ?thesis by (simp add: t)
qed

text \<open>
  Division by zero. \<open>noDivZero r\<close>: the call did not end in the run-time panic of an
  integer division by zero. No part of an operation but \<open>%\<close> can end so.
\<close>

definition noDivZero :: "'a outcome \<Rightarrow> bool" where
  "noDivZero r \<longleftrightarrow> r \<noteq> Panics IntegerDivideByZero"

lemma noDivZero_simps [simp]:
  "noDivZero (Returns x)" "noDivZero Hangs" "noDivZero (Panics p) \<longleftrightarrow> p \<noteq> IntegerDivideByZero"
  by (simp_all add: noDivZero_def)

lemma noDivZero_andThen:
  assumes "noDivZero m" "\<And>x. m = Returns x \<Longrightarrow> noDivZero (f x)"
  shows "noDivZero (andThen m f)"
  using assms by (cases m) simp_all

lemma noDivZero_umod: "b \<noteq> 0 \<Longrightarrow> noDivZero (umod a b)"
  by (simp add: umod_def)

lemma noDivZero_fields [simp]:
  "noDivZero (getField s a b)" "noDivZero (setField s a b v)"
  "noDivZero (getMaxLen s)" "noDivZero (getMsgSize s)" "noDivZero (getStartIdx s)"
  "noDivZero (getQueueLen s)" "noDivZero (setStartIdx s v)" "noDivZero (setQueueLen s v)"
  by (simp_all add: header_getters header_setters getField_def setField_def)

lemma noDivZero_uint64Ptr [simp]: "noDivZero (uint64Ptr s p)"
  by (simp add: uint64Ptr_def)

lemma noDivZero_acquire [simp]: "noDivZero (acquire p s)"
  by (simp add: acquire_def split: option.splits)

lemma noDivZero_locks [simp]:
  "noDivZero (lockHeader s)" "noDivZero (unlockHeader s)"
  "noDivZero (startMsgLock s idx)" "noDivZero (startEndMsgData s idx)"
  "noDivZero (lockMsg s idx)" "noDivZero (unlockMsg s idx)"
  by (auto simp add: lockHeader_def unlockHeader_def startMsgLock_def startEndMsgData_def
        lockMsg_def unlockMsg_def Let_def intro!: noDivZero_andThen)

lemma noDivZero_setMsgData_loop [simp]: "noDivZero (setMsgData_loop m data start stop i)"
proof (induction m data start stop i rule: setMsgData_loop.induct)
  case (1 m data start stop i)
  then show ?case by (subst setMsgData_loop.simps) simp
qed

lemma noDivZero_getMsgData_loop [simp]: "noDivZero (getMsgData_loop m toMsg start stop i)"
proof (induction m toMsg start stop i rule: getMsgData_loop.induct)
  case (1 m toMsg start stop i)
  then show ?case by (subst getMsgData_loop.simps) simp
qed

lemma noDivZero_copies [simp]:
  "noDivZero (setMsgData s idx data)" "noDivZero (getMsgData s idx toMsg)"
  by (auto simp add: setMsgData_def getMsgData_def intro!: noDivZero_andThen)

text \<open>
  The \<open>max_len\<close> read under the header lock is the \<open>max_len\<close> of the segment: a call
  of \<open>lockHeader\<close> that returns has passed the index check of \<open>&s.mem[16]\<close>, so the
  field \<open>max_len\<close> lies within the length of \<open>mem\<close>, and neither the lock word nor
  \<open>queue_len\<close> overlaps it.
\<close>

lemma rd32_setBacking:
  assumes "c + 4 \<le> length (mem s)" "a + length bs \<le> length (backing s)"
    and "c + 4 \<le> a"
  shows "rd32 (setBacking s (splice (backing s) a bs)) c = rd32 s c"
proof -
  have "slice (take (length (mem s)) (splice (backing s) a bs)) c (c + 4)
      = slice (splice (backing s) a bs) c (c + 4)"
    using assms(1) by (rule slice_take)
  also have "\<dots> = slice (backing s) c (c + 4)"
    using assms by (intro slice_splice_other) simp_all
  also have "\<dots> = slice (mem s) c (c + 4)" using assms(1) by (rule slice_backing)
  finally show ?thesis by (simp add: rd32_def)
qed

lemma length_mem_setBacking:
  "a + length bs \<le> length (backing s) \<Longrightarrow>
   length (mem (setBacking s (splice (backing s) a bs))) = length (mem s)"
  by simp

lemma andThen_Returns:
  "andThen m f = Returns y \<longleftrightarrow> (\<exists>x. m = Returns x \<and> f x = Returns y)"
  by (cases m) simp_all

lemma lockHeader_Returns:
  assumes "lockHeader s = Returns s1"
  shows "s1 = emit LockHeader (StoreUint64 s 16 1)" "16 < length (mem s)"
    "24 \<le> length (backing s)"
  using assms
  by (auto simp add: lockHeader_def uint64Ptr_def startHeaderLock_def not_less not_le
        andThen_Returns simp del: length_backing dest!: acquire_Returns split: if_splits)

lemma unlockHeader_Returns:
  assumes "unlockHeader s = Returns s1"
  shows "s1 = emit UnlockHeader (StoreUint64 s 16 0)" "16 < length (mem s)"
    "24 \<le> length (backing s)"
  using assms
  by (auto simp add: unlockHeader_def uint64Ptr_def startHeaderLock_def not_less not_le
        simp del: length_backing split: if_splits)

lemma getMaxLen_Returns:
  "getMaxLen s = Returns x \<Longrightarrow> 12 \<le> length (mem s) \<Longrightarrow> x = maxLenOf s"
  by (auto simp add: getMaxLen_def getField_def maxLenOf_def rd32_def layout slice_backing
        split: if_splits)

lemma setQueueLen_Returns:
  assumes "setQueueLen s v = Returns s1"
  shows "s1 = setBacking s (splice (backing s) 28 (enc32 (byteOrder s) v))"
    "32 \<le> length (backing s)"
proof -
  from assms show b: "32 \<le> length (backing s)"
    by (auto simp add: setQueueLen_def setField_def layout not_less simp del: length_backing
          split: if_splits)
  then have "length (slice (backing s) 28 32) = 4" by (simp del: length_backing)
  then show "s1 = setBacking s (splice (backing s) 28 (enc32 (byteOrder s) v))"
    using assms
    by (auto simp add: setQueueLen_def setField_def layout PutUint32_enc32
          simp del: length_backing split: if_splits)
qed

lemma maxLenOf_locked:
  "16 < length (mem s) \<Longrightarrow> 24 \<le> length (backing s) \<Longrightarrow>
   maxLenOf (StoreUint64 s 16 v) = maxLenOf s"
  unfolding maxLenOf_def StoreUint64_def
  by (rule rd32_setBacking) (simp_all del: length_backing)

lemma maxLenOf_queueLen:
  "12 \<le> length (mem s) \<Longrightarrow> 32 \<le> length (backing s) \<Longrightarrow>
   maxLenOf (setBacking s (splice (backing s) 28 (enc32 (byteOrder s) v))) = maxLenOf s"
  unfolding maxLenOf_def
  by (rule rd32_setBacking) (simp_all del: length_backing)

lemma length_locked:
  "24 \<le> length (backing s) \<Longrightarrow> length (mem (StoreUint64 s 16 v)) = length (mem s)"
  unfolding StoreUint64_def by (rule length_mem_setBacking) (simp del: length_backing)

lemma lockHeader_maxLen:
  assumes "lockHeader s = Returns s1"
  shows "maxLenOf s1 = maxLenOf s" "16 < length (mem s1)"
  using lockHeader_Returns [OF assms]
  by (simp_all add: maxLenOf_locked length_locked del: length_backing)

lemma unlockHeader_maxLen: "unlockHeader s = Returns s1 \<Longrightarrow> maxLenOf s1 = maxLenOf s"
  using unlockHeader_Returns [of s s1] by (simp add: maxLenOf_locked del: length_backing)

lemma lockHeader_kept:
  "lockHeader s = Returns s1 \<Longrightarrow> maxLenOf s1 = maxLenOf s \<and> 16 < length (mem s1)"
  using lockHeader_maxLen [of s s1] by simp

lemma locked_maxLen:
  assumes "lockHeader s = Returns s1" "getMaxLen s1 = Returns x"
  shows "x = maxLenOf s"
  using lockHeader_maxLen [OF assms(1)] getMaxLen_Returns [OF assms(2)] by simp

lemma setQueueLen_maxLen:
  assumes "16 < length (mem s1)" "setQueueLen s1 v = Returns s2" "getMaxLen s2 = Returns x"
  shows "x = maxLenOf s1"
proof -
  note q = setQueueLen_Returns [OF assms(2)]
  have "length (mem s2) = length (mem s1)"
    unfolding q(1) using q(2) by (intro length_mem_setBacking) (simp del: length_backing)
  then have "x = maxLenOf s2" using assms(1) getMaxLen_Returns [OF assms(3)] by simp
  also have "\<dots> = maxLenOf s1"
    unfolding q(1) using assms(1) q(2) by (intro maxLenOf_queueLen) simp_all
  finally show ?thesis .
qed

lemma dequeue_maxLen:
  assumes "lockHeader s = Returns s1" "setQueueLen s1 v = Returns s2" "getMaxLen s2 = Returns x"
  shows "x = maxLenOf s"
  using lockHeader_maxLen [OF assms(1)] setQueueLen_maxLen [OF _ assms(2,3)] by simp

lemma noDivZero_EnqueueTry: "noDivZero (EnqueueTry q msg)"
  unfolding EnqueueTry_def
  by (intro noDivZero_andThen) (auto intro!: noDivZero_andThen noDivZero_umod)

lemma noDivZero_EnqueueShift:
  assumes "maxLenOf (seg q) \<noteq> 0"
  shows "noDivZero (EnqueueShift q msg)"
  unfolding EnqueueShift_def
proof (intro noDivZero_andThen)
  fix s1 curLen maxLen startIdx
  assume a: "lockHeader (seg q) = Returns s1" and b: "getMaxLen s1 = Returns maxLen"
  from locked_maxLen [OF a b] assms have "maxLen \<noteq> 0" by simp
  then show "noDivZero (umod (startIdx + curLen) maxLen)"
    and "noDivZero (if curLen < maxLen then setQueueLen s1 (curLen + 1)
                    else andThen (umod (startIdx + 1) maxLen) (setStartIdx s1))"
    by (auto intro!: noDivZero_andThen noDivZero_umod)
qed simp_all

lemma noDivZero_DequeueTry:
  assumes "maxLenOf (seg q) \<noteq> 0"
  shows "noDivZero (DequeueTry q toMsg)"
  unfolding DequeueTry_def
proof (intro noDivZero_andThen)
  fix s1 curLen
  assume l: "lockHeader (seg q) = Returns s1"
  show "noDivZero (if curLen = 0
          then andThen (unlockHeader s1) (\<lambda>s. Returns (False, toMsg, q\<lparr>seg := s\<rparr>))
          else andThen (setQueueLen s1 (curLen - 1)) (\<lambda>s.
               andThen (getStartIdx s) (\<lambda>startIdx.
               andThen (getMaxLen s) (\<lambda>maxLen.
               andThen (umod (startIdx + 1) maxLen) (\<lambda>newStart.
               andThen (setStartIdx s newStart) (\<lambda>s.
               andThen (lockMsg s startIdx) (\<lambda>s.
               andThen (unlockHeader s) (\<lambda>s.
               andThen (getMsgData s startIdx toMsg) (\<lambda>(toMsg, s).
               andThen (unlockMsg s startIdx) (\<lambda>s.
               Returns (True, toMsg, q\<lparr>seg := s\<rparr>)))))))))))"
  proof (cases "curLen = 0")
    case True
    then show ?thesis by (auto intro!: noDivZero_andThen)
  next
    case False
    have "noDivZero (umod (startIdx + 1) maxLen)"
      if "setQueueLen s1 (curLen - 1) = Returns s2" "getMaxLen s2 = Returns maxLen"
      for s2 startIdx maxLen
      using dequeue_maxLen [OF l that] assms by (simp add: noDivZero_umod)
    then show ?thesis
      using False by (auto intro!: noDivZero_andThen)
  qed
qed simp_all


lemmas never_div =
  noDivZero_fields [unfolded noDivZero_def] noDivZero_locks [unfolded noDivZero_def]

lemma waitOn_Some:
  "waitOn m f = Some r \<longleftrightarrow>
     (\<exists>x. m = Returns x \<and> f x = Some r) \<or> (\<exists>p. m = Panics p \<and> r = Panics p)
     \<or> (m = Hangs \<and> r = Hangs)"
  by (cases m) (auto simp add: waitOn_def)

lemma EnqueueBlock_loop_Some:
  assumes "EnqueueBlock_loop ctx s i = Some r"
  shows "noDivZero r \<and> (\<forall>s1 cl ml. r = Returns (Inr (s1, cl, ml)) \<longrightarrow> cl < ml)"
proof (rule EnqueueBlock_loop.raw_induct
    [where P = "\<lambda>ctx s i r. noDivZero r
                  \<and> (\<forall>s1 cl ml. r = Returns (Inr (s1, cl, ml)) \<longrightarrow> cl < ml)", OF _ assms])
  fix f ctx s i r
  assume IH: "\<And>ctx s i r. f ctx s i = Some r \<Longrightarrow>
                noDivZero r \<and> (\<forall>s1 cl ml. r = Returns (Inr (s1, cl, ml)) \<longrightarrow> cl < ml)"
    and eq: "(if Done ctx i then Some (Returns (Inl (Err ctx, s)))
      else
        waitOn (getQueueLen s) (\<lambda>curLen.
        waitOn (getMaxLen s) (\<lambda>maxLen.
        if curLen < maxLen then
          waitOn (lockHeader s) (\<lambda>s.
          waitOn (getQueueLen s) (\<lambda>curLen.
          waitOn (getMaxLen s) (\<lambda>maxLen.
          if curLen \<ge> maxLen then
            waitOn (unlockHeader s) (\<lambda>s. f ctx s (i + 1))
          else Some (Returns (Inr (s, curLen, maxLen))))))
        else f ctx s (i + 1)))) = Some r"
  from eq IH show "noDivZero r \<and> (\<forall>s1 cl ml. r = Returns (Inr (s1, cl, ml)) \<longrightarrow> cl < ml)"
    by (auto simp add: waitOn_Some never_div not_le split: if_splits)
qed

lemma noDivZero_EnqueueBlock: "noDivZero (EnqueueBlock ctx q msg)"
proof (cases "EnqueueBlock_loop ctx (seg q) 0")
  case None
  then show ?thesis by (simp add: EnqueueBlock_def)
next
  case (Some r)
  note l = EnqueueBlock_loop_Some [OF Some]
  have "noDivZero (andThen r (\<lambda>res.
          case res of
            Inl (err, s) \<Rightarrow> Returns (Some err, q\<lparr>seg := s\<rparr>)
          | Inr (s, curLen, maxLen) \<Rightarrow>
              andThen (setQueueLen s (curLen + 1)) (\<lambda>s.
              andThen (getStartIdx s) (\<lambda>startIdx.
              andThen (umod (startIdx + curLen) maxLen) (\<lambda>msgIdx.
              andThen (lockMsg s msgIdx) (\<lambda>s.
              andThen (setMsgData s msgIdx msg) (\<lambda>s.
              andThen (unlockHeader s) (\<lambda>s.
              andThen (unlockMsg s msgIdx) (\<lambda>s.
              Returns (None, q\<lparr>seg := s\<rparr>))))))))))"
  proof (rule noDivZero_andThen)
    show "noDivZero r" using l by simp
  next
    fix res assume r: "r = Returns res"
    show "noDivZero (case res of
            Inl (err, s) \<Rightarrow> Returns (Some err, q\<lparr>seg := s\<rparr>)
          | Inr (s, curLen, maxLen) \<Rightarrow>
              andThen (setQueueLen s (curLen + 1)) (\<lambda>s.
              andThen (getStartIdx s) (\<lambda>startIdx.
              andThen (umod (startIdx + curLen) maxLen) (\<lambda>msgIdx.
              andThen (lockMsg s msgIdx) (\<lambda>s.
              andThen (setMsgData s msgIdx msg) (\<lambda>s.
              andThen (unlockHeader s) (\<lambda>s.
              andThen (unlockMsg s msgIdx) (\<lambda>s.
              Returns (None, q\<lparr>seg := s\<rparr>)))))))))"
    proof (cases res)
      case (Inl a)
      then show ?thesis by (cases a) simp
    next
      case (Inr b)
      obtain s1 cl ml where b: "b = (s1, cl, ml)" by (cases b)
      with l r Inr have "cl < ml" by simp
      then have "ml \<noteq> 0" by auto
      then show ?thesis
        unfolding Inr b by (auto intro!: noDivZero_andThen noDivZero_umod)
    qed
  qed
  then show ?thesis by (simp add: EnqueueBlock_def Some)
qed


lemma DequeueBlock_loop_Some:
  assumes "DequeueBlock_loop ctx s i = Some r"
  shows "noDivZero r
       \<and> (\<forall>s1 cl. r = Returns (Inr (s1, cl)) \<longrightarrow>
              maxLenOf s1 = maxLenOf s \<and> 16 < length (mem s1))"
proof (rule DequeueBlock_loop.raw_induct
    [where P = "\<lambda>ctx s i r. noDivZero r
                  \<and> (\<forall>s1 cl. r = Returns (Inr (s1, cl)) \<longrightarrow>
                         maxLenOf s1 = maxLenOf s \<and> 16 < length (mem s1))",
     OF _ assms])
  fix f ctx s i r
  assume IH: "\<And>ctx s i r. f ctx s i = Some r \<Longrightarrow>
                noDivZero r \<and> (\<forall>s1 cl. r = Returns (Inr (s1, cl)) \<longrightarrow>
                                 maxLenOf s1 = maxLenOf s \<and> 16 < length (mem s1))"
    and eq: "(if Done ctx i then Some (Returns (Inl (Err ctx, s)))
      else
        waitOn (getQueueLen s) (\<lambda>curLen.
        if curLen > 0 then
          waitOn (lockHeader s) (\<lambda>s.
          waitOn (getQueueLen s) (\<lambda>curLen.
          if curLen = 0 then
            waitOn (unlockHeader s) (\<lambda>s. f ctx s (i + 1))
          else Some (Returns (Inr (s, curLen)))))
        else f ctx s (i + 1))) = Some r"
  from eq IH show "noDivZero r
      \<and> (\<forall>s1 cl. r = Returns (Inr (s1, cl)) \<longrightarrow>
             maxLenOf s1 = maxLenOf s \<and> 16 < length (mem s1))"
    by (auto simp add: waitOn_Some never_div split: if_splits
          dest!: lockHeader_kept unlockHeader_maxLen)
qed

lemma noDivZero_DequeueBlock:
  assumes "maxLenOf (seg q) \<noteq> 0"
  shows "noDivZero (DequeueBlock ctx q toMsg)"
proof (cases "DequeueBlock_loop ctx (seg q) 0")
  case None
  then show ?thesis by (simp add: DequeueBlock_def)
next
  case (Some r)
  note l = DequeueBlock_loop_Some [OF Some]
  have "noDivZero (andThen r (\<lambda>res.
          case res of
            Inl (err, s) \<Rightarrow> Returns (Some err, toMsg, q\<lparr>seg := s\<rparr>)
          | Inr (s, curLen) \<Rightarrow>
              andThen (setQueueLen s (curLen - 1)) (\<lambda>s.
              andThen (getStartIdx s) (\<lambda>startIdx.
              andThen (getMaxLen s) (\<lambda>maxLen.
              andThen (umod (startIdx + 1) maxLen) (\<lambda>newStart.
              andThen (setStartIdx s newStart) (\<lambda>s.
              andThen (lockMsg s startIdx) (\<lambda>s.
              andThen (unlockHeader s) (\<lambda>s.
              andThen (getMsgData s startIdx toMsg) (\<lambda>(toMsg, s).
              andThen (unlockMsg s startIdx) (\<lambda>s.
              Returns (None, toMsg, q\<lparr>seg := s\<rparr>))))))))))))"
  proof (rule noDivZero_andThen)
    show "noDivZero r" using l by simp
  next
    fix res assume r: "r = Returns res"
    show "noDivZero (case res of
            Inl (err, s) \<Rightarrow> Returns (Some err, toMsg, q\<lparr>seg := s\<rparr>)
          | Inr (s, curLen) \<Rightarrow>
              andThen (setQueueLen s (curLen - 1)) (\<lambda>s.
              andThen (getStartIdx s) (\<lambda>startIdx.
              andThen (getMaxLen s) (\<lambda>maxLen.
              andThen (umod (startIdx + 1) maxLen) (\<lambda>newStart.
              andThen (setStartIdx s newStart) (\<lambda>s.
              andThen (lockMsg s startIdx) (\<lambda>s.
              andThen (unlockHeader s) (\<lambda>s.
              andThen (getMsgData s startIdx toMsg) (\<lambda>(toMsg, s).
              andThen (unlockMsg s startIdx) (\<lambda>s.
              Returns (None, toMsg, q\<lparr>seg := s\<rparr>)))))))))))"
    proof (cases res)
      case (Inl a)
      then show ?thesis by (cases a) simp
    next
      case (Inr b)
      obtain s1 cl where b: "b = (s1, cl)" by (cases b)
      with l r Inr have m: "maxLenOf s1 = maxLenOf (seg q)" "16 < length (mem s1)"
        by simp_all
      have "noDivZero (umod (startIdx + 1) maxLen)"
        if "setQueueLen s1 (cl - 1) = Returns s2" "getMaxLen s2 = Returns maxLen"
        for s2 startIdx maxLen
        using setQueueLen_maxLen [OF m(2) that] m(1) assms
        by (simp add: noDivZero_umod)
      then show ?thesis
        unfolding Inr b by (auto intro!: noDivZero_andThen)
    qed
  qed
  then show ?thesis by (simp add: DequeueBlock_def Some)
qed


text \<open>
  Claim C9. \<open>Create\<close> does not look at \<open>max_len\<close>: with \<open>max_len = 0\<close> it asks for 32
  bytes and, on a host where the key is free and the new segment is zeroed, returns a
  queue with capacity 0. On that queue \<open>EnqueueTry\<close> returns false and \<open>DequeueTry\<close>
  returns false, and \<open>EnqueueShift\<close> panics with an integer division by zero. On every
  queue whose \<open>max_len\<close> is at least 1, whatever else its segment holds, none of the five
  operations ends in a division by zero.
\<close>

theorem zero_capacity:
  "(SysvShmGet h k 32 access = Inl ENOENT
      \<and> SysvShmGet h k 32 (access OR IPC_CREAT OR IPC_EXCL) = Inr i
      \<and> SysvShmAttach h i = Inr (replicate 32 0) \<longrightarrow>
      (\<exists>q0. Create h k w 0 = Returns (Inr q0) \<and> getMaxLen (seg q0) = Returns 0
         \<and> (\<exists>q'. EnqueueTry q0 msg = Returns (False, q'))
         \<and> (\<exists>q'. DequeueTry q0 toMsg = Returns (False, toMsg, q'))
         \<and> EnqueueShift q0 msg = Panics IntegerDivideByZero))
   \<and> (1 \<le> maxLenOf (seg q) \<longrightarrow>
        EnqueueShift q msg \<noteq> Panics IntegerDivideByZero
        \<and> EnqueueTry q msg \<noteq> Panics IntegerDivideByZero
        \<and> EnqueueBlock ctx q msg \<noteq> Panics IntegerDivideByZero
        \<and> DequeueTry q toMsg \<noteq> Panics IntegerDivideByZero
        \<and> DequeueBlock ctx q toMsg \<noteq> Panics IntegerDivideByZero)"
proof (intro conjI impI)
  assume g: "SysvShmGet h k 32 access = Inl ENOENT
      \<and> SysvShmGet h k 32 (access OR IPC_CREAT OR IPC_EXCL) = Inr i
      \<and> SysvShmAttach h i = Inr (replicate 32 0)"
  let ?s = "formatted (newSegment h (replicate 32 0) []) (w * 8) 0"
  let ?q = "newQueue k i ?s"
  have t: "totalShmSize (w * 8) 0 = 32" by (simp add: totalShmSize_wraps)
  have c: "Create h k w 0 = Returns (Inr ?q)"
    using g by (intro Create_new) (simp_all add: t)
  have l0: "32 \<le> length (mem (newSegment h (replicate 32 0) []))" by (simp add: newSegment_def)
  have "peek (newSegment h (replicate 32 0) []) 16 8 = replicate 8 0"
    by (simp add: peek_def newSegment_def slice_def)
  then have "lockWord (newSegment h (replicate 32 0) []) 16 = 0"
    by (simp add: lockWord_def Uint64_zero)
  then have lk: "lockWord (seg ?q) 16 = 0"
    using l0 by (simp add: newQueue_def formatted_facts)
  have f: "32 \<le> length (mem (seg ?q))" "maxLenOf (seg ?q) = 0" "queueLenOf (seg ?q) = 0"
    using l0 by (simp_all add: newQueue_def formatted_facts)
  have "getMaxLen (seg ?q) = Returns 0" using f by (simp add: getters_eq)
  moreover have "EnqueueTry ?q msg = Returns (False, ?q\<lparr>seg := refused (seg ?q)\<rparr>)"
    using f lk by (intro EnqueueTry_full) simp_all
  moreover have "DequeueTry ?q toMsg = Returns (False, toMsg, ?q\<lparr>seg := refused (seg ?q)\<rparr>)"
    using f lk by (intro DequeueTry_empty) simp_all
  moreover have "EnqueueShift ?q msg = Panics IntegerDivideByZero"
    using f lk by (intro EnqueueShift_zero) simp_all
  ultimately show "\<exists>q0. Create h k w 0 = Returns (Inr q0) \<and> getMaxLen (seg q0) = Returns 0
         \<and> (\<exists>q'. EnqueueTry q0 msg = Returns (False, q'))
         \<and> (\<exists>q'. DequeueTry q0 toMsg = Returns (False, toMsg, q'))
         \<and> EnqueueShift q0 msg = Panics IntegerDivideByZero"
    using c by blast
next
  assume "1 \<le> maxLenOf (seg q)"
  then have nz: "maxLenOf (seg q) \<noteq> 0" by auto
  show "EnqueueShift q msg \<noteq> Panics IntegerDivideByZero"
    using noDivZero_EnqueueShift [OF nz] by (simp add: noDivZero_def)
  show "EnqueueTry q msg \<noteq> Panics IntegerDivideByZero"
    using noDivZero_EnqueueTry by (simp add: noDivZero_def)
  show "EnqueueBlock ctx q msg \<noteq> Panics IntegerDivideByZero"
    using noDivZero_EnqueueBlock by (simp add: noDivZero_def)
  show "DequeueTry q toMsg \<noteq> Panics IntegerDivideByZero"
    using noDivZero_DequeueTry [OF nz] by (simp add: noDivZero_def)
  show "DequeueBlock ctx q toMsg \<noteq> Panics IntegerDivideByZero"
    using noDivZero_DequeueBlock [OF nz] by (simp add: noDivZero_def)
qed

theorem zero_capacity_witness:
  "SysvShmGet emptyHost 1 32 access = Inl ENOENT
   \<and> SysvShmGet emptyHost 1 32 (access OR IPC_CREAT OR IPC_EXCL) = Inr 32
   \<and> SysvShmAttach emptyHost 32 = Inr (replicate 32 0)
   \<and> (\<exists>q0. Create emptyHost 1 2 0 = Returns (Inr q0) \<and> getMaxLen (seg q0) = Returns 0
         \<and> (\<exists>q'. EnqueueTry q0 testMsgA = Returns (False, q'))
         \<and> (\<exists>q'. DequeueTry q0 (replicate 16 0) = Returns (False, replicate 16 0, q'))
         \<and> EnqueueShift q0 testMsgA = Panics IntegerDivideByZero)
   \<and> 1 \<le> maxLenOf (seg (testQueue 0 5))
   \<and> EnqueueShift (testQueue 0 5) testMsgA \<noteq> Panics IntegerDivideByZero
   \<and> DequeueTry (testQueue 0 5) (replicate 16 0) \<noteq> Panics IntegerDivideByZero"
  using zero_capacity [of emptyHost 1 32 2 testMsgA "replicate 16 0" "testQueue 0 5"]
  by (simp add: emptyHost_def testQueue_fields)

text \<open>
  The ring, read in order: \<open>ringIdx s k\<close> is the slot \<open>(start_idx + k) mod max_len\<close>, and
  \<open>ringContents s\<close> the payloads of the \<open>queue_len\<close> slots from \<open>start_idx\<close> on.
\<close>

definition ringIdx :: "segment \<Rightarrow> nat \<Rightarrow> uint32" where
  "ringIdx s k = of_nat ((unat (startIdxOf s) + k) mod unat (maxLenOf s))"

definition ringContents :: "segment \<Rightarrow> byte list list" where
  "ringContents s = map (\<lambda>k. slotPayload s (ringIdx s k)) [0..<unat (queueLenOf s)]"

text \<open>\<open>shiftAll q msgs\<close>: one \<open>EnqueueShift\<close> for each payload of \<open>msgs\<close>, in order.\<close>

fun shiftAll :: "Queue \<Rightarrow> byte list list \<Rightarrow> Queue outcome" where
  "shiftAll q [] = Returns q"
| "shiftAll q (msg # msgs) = andThen (EnqueueShift q msg) (\<lambda>q'. shiftAll q' msgs)"

definition lastN :: "nat \<Rightarrow> 'a list \<Rightarrow> 'a list" where
  "lastN n xs = drop (length xs - n) xs"

lemma mod_window:
  fixes a k n m :: nat
  assumes "k < n" "n - k < m"
  shows "(a + k) mod m \<noteq> (a + n) mod m"
proof
  assume "(a + k) mod m = (a + n) mod m"
  then have "(a + n) mod m = (a + k) mod m" by simp
  moreover have "a + k \<le> a + n" using assms(1) by simp
  ultimately have "m dvd (a + n) - (a + k)"
    using mod_eq_dvd_iff_nat [of "a + k" "a + n" m] by blast
  then have "m dvd n - k" by simp
  moreover have "0 < n - k" using assms(1) by simp
  ultimately show False using assms(2) by (simp add: nat_dvd_not_less)
qed

lemma unat_ringIdx:
  assumes "maxLenOf s \<noteq> 0"
  shows "unat (ringIdx s k) = (unat (startIdxOf s) + k) mod unat (maxLenOf s)"
    "ringIdx s k < maxLenOf s"
proof -
  have m: "0 < unat (maxLenOf s)" using assms by (simp add: unat_gt_0)
  then have "(unat (startIdxOf s) + k) mod unat (maxLenOf s) < unat (maxLenOf s)" by simp
  moreover have "unat (maxLenOf s) < 2 ^ 32"
    using unsigned_less [of "maxLenOf s", where 'a = nat] by simp
  ultimately have "(unat (startIdxOf s) + k) mod unat (maxLenOf s) < 2 ^ 32" by simp
  then show u: "unat (ringIdx s k) = (unat (startIdxOf s) + k) mod unat (maxLenOf s)"
    unfolding ringIdx_def by (rule unat_of_nat32)
  show "ringIdx s k < maxLenOf s" using m by (simp add: word_less_nat_alt u)
qed

lemma ringIdx_distinct:
  assumes "maxLenOf s \<noteq> 0" "k < n" "n - k < unat (maxLenOf s)"
  shows "ringIdx s k \<noteq> ringIdx s n"
  using mod_window [OF assms(2,3), of "unat (startIdxOf s)"] unat_ringIdx(1) [OF assms(1)]
  by (auto simp add: word_unat_eq_iff)

lemma tailIdx_ringIdx:
  assumes "atRest s"
  shows "tailIdx s = ringIdx s (unat (queueLenOf s))"
  using tailIdx_nat [OF assms] unat_ringIdx(1) [OF atRest_nonzero [OF assms]]
  by (simp add: word_unat_eq_iff)

lemma ringIdx_wrap:
  assumes "maxLenOf s \<noteq> 0"
  shows "ringIdx s (k + unat (maxLenOf s)) = ringIdx s k"
  by (simp add: ringIdx_def add.assoc [symmetric])

lemma ringIdx_0:
  assumes "atRest s"
  shows "ringIdx s 0 = startIdxOf s"
proof -
  from assms have "unat (startIdxOf s) < unat (maxLenOf s)"
    by (simp add: atRest_def ringInv_def word_less_nat_alt)
  then show ?thesis by (simp add: ringIdx_def)
qed

lemma ringContents_appended:
  assumes "atRest s" "queueLenOf s < maxLenOf s" "length msg = unat (msgSizeOf s)"
  shows "ringContents (appended s msg) = ringContents s @ [msg]"
proof -
  note f = appended_facts [OF assms]
  note nz = atRest_nonzero [OF assms(1)]
  let ?n = "unat (queueLenOf s)"
  have n: "?n < unat (maxLenOf s)" using assms(2) by (simp add: word_less_nat_alt)
  have len: "unat (queueLenOf s + 1) = ?n + 1" using assms(2) by (rule unat_succ)
  have idx: "ringIdx (appended s msg) k = ringIdx s k" for k
    by (simp add: ringIdx_def f)
  have old: "slotPayload (appended s msg) (ringIdx s k) = slotPayload s (ringIdx s k)"
    if "k < ?n" for k
    using f(6) [OF unat_ringIdx(2) [OF nz, of k]] ringIdx_distinct [OF nz that] n
      tailIdx_ringIdx [OF assms(1)]
    by simp
  have new: "slotPayload (appended s msg) (ringIdx s ?n) = msg"
    using f(6) [OF unat_ringIdx(2) [OF nz, of ?n]] tailIdx_ringIdx [OF assms(1)] by simp
  have "ringContents (appended s msg)
      = map (\<lambda>k. slotPayload (appended s msg) (ringIdx s k)) [0..<?n]
        @ [slotPayload (appended s msg) (ringIdx s ?n)]"
    by (simp add: ringContents_def f(4) len idx)
  also have "map (\<lambda>k. slotPayload (appended s msg) (ringIdx s k)) [0..<?n]
      = map (\<lambda>k. slotPayload s (ringIdx s k)) [0..<?n]"
    by (rule map_cong) (simp_all add: old)
  finally show ?thesis by (simp add: new ringContents_def)
qed

lemma ringContents_shifted:
  assumes "atRest s" "queueLenOf s = maxLenOf s" "length msg = unat (msgSizeOf s)"
  shows "ringContents (shifted s msg) = tl (ringContents s) @ [msg]"
proof -
  note f = shifted_facts [OF assms(1,3)]
  note nz = atRest_nonzero [OF assms(1)]
  let ?m = "unat (maxLenOf s)"
  have m: "0 < ?m" using nz by (simp add: unat_gt_0)
  have tail: "tailIdx s = ringIdx s ?m"
    using tailIdx_ringIdx [OF assms(1)] assms(2) by simp
  have idx: "ringIdx (shifted s msg) k = ringIdx s (Suc k)" for k
  proof -
    have "((unat (startIdxOf s) + 1) mod ?m + k) mod ?m = (unat (startIdxOf s) + 1 + k) mod ?m"
      by (rule mod_add_left_eq)
    then have "(unat (nextStart s) + k) mod ?m = (unat (startIdxOf s) + Suc k) mod ?m"
      unfolding nextStart_nat [OF assms(1)] by simp
    then show ?thesis by (simp only: ringIdx_def f)
  qed
  have old: "slotPayload (shifted s msg) (ringIdx s (Suc k)) = slotPayload s (ringIdx s (Suc k))"
    if "Suc k < ?m" for k
    using f(6) [OF unat_ringIdx(2) [OF nz, of "Suc k"]]
      ringIdx_distinct [OF nz that] m tail
    by simp
  have new: "slotPayload (shifted s msg) (ringIdx s ?m) = msg"
    using f(6) [OF unat_ringIdx(2) [OF nz, of ?m]] tail by simp
  obtain m' where m': "?m = Suc m'" using m by (cases ?m) simp_all
  have "ringContents (shifted s msg)
      = map (\<lambda>k. slotPayload (shifted s msg) (ringIdx s (Suc k))) [0..<m']
        @ [slotPayload (shifted s msg) (ringIdx s ?m)]"
    unfolding ringContents_def f(4) assms(2) idx by (simp add: m')
  also have "map (\<lambda>k. slotPayload (shifted s msg) (ringIdx s (Suc k))) [0..<m']
      = map (\<lambda>k. slotPayload s (ringIdx s (Suc k))) [0..<m']"
    by (rule map_cong) (simp_all add: old m')
  also have "\<dots> = tl (ringContents s)"
    unfolding ringContents_def assms(2) m'
    by (simp add: map_tl [symmetric] upt_conv_Cons map_Suc_upt [symmetric] del: map_tl upt_Suc)
  finally show ?thesis by (simp add: new)
qed


lemma lastN_append: "lastN n (lastN n xs @ ys) = lastN n (xs @ ys)"
proof (cases "length xs \<le> n")
  case True
  then show ?thesis by (simp add: lastN_def)
next
  case False
  then have "length xs - n \<le> length xs" "length xs + length ys - n = (length xs - n) + length ys"
    by simp_all
  with False show ?thesis by (simp add: lastN_def add.commute)
qed

lemma length_ringContents [simp]: "length (ringContents s) = unat (queueLenOf s)"
  by (simp add: ringContents_def)

lemma EnqueueShift_contents:
  assumes "atRest (seg q)" "length msg = unat (msgSizeOf (seg q))"
  shows "\<exists>q'. EnqueueShift q msg = Returns q' \<and> atRest (seg q')
           \<and> maxLenOf (seg q') = maxLenOf (seg q) \<and> msgSizeOf (seg q') = msgSizeOf (seg q)
           \<and> ringContents (seg q')
               = lastN (unat (maxLenOf (seg q))) (ringContents (seg q) @ [msg])"
proof (cases "queueLenOf (seg q) < maxLenOf (seg q)")
  case True
  note f = appended_facts [OF assms(1) True assms(2)]
  have "unat (queueLenOf (seg q)) < unat (maxLenOf (seg q))"
    using True by (simp add: word_less_nat_alt)
  then have "lastN (unat (maxLenOf (seg q))) (ringContents (seg q) @ [msg])
      = ringContents (seg q) @ [msg]"
    by (simp add: lastN_def)
  then show ?thesis
    using True assms(2) f(1,2,5) ringContents_appended [OF assms(1) True assms(2)]
    by (simp add: EnqueueShift_atRest [OF assms(1)])
next
  case False
  moreover have "queueLenOf (seg q) \<le> maxLenOf (seg q)"
    using assms(1) by (simp add: atRest_def ringInv_def)
  ultimately have full: "queueLenOf (seg q) = maxLenOf (seg q)" by simp
  note f = shifted_facts [OF assms]
  have "0 < unat (maxLenOf (seg q))"
    using atRest_nonzero [OF assms(1)] by (simp add: unat_gt_0)
  then obtain x xs where c: "ringContents (seg q) = x # xs"
    using full length_ringContents [of "seg q"] by (cases "ringContents (seg q)") auto
  have "Suc (length xs) = unat (maxLenOf (seg q))"
    using full length_ringContents [of "seg q"] by (simp add: c)
  then have "length (x # xs @ [msg]) - unat (maxLenOf (seg q)) = 1" by simp
  then have "lastN (unat (maxLenOf (seg q))) (ringContents (seg q) @ [msg])
      = tl (ringContents (seg q)) @ [msg]"
    unfolding lastN_def c by (simp only: append_Cons) simp
  then show ?thesis
    using False assms(2) f(1,2,5) ringContents_shifted [OF assms(1) full assms(2)]
    by (simp add: EnqueueShift_atRest [OF assms(1)])
qed

lemma shiftAll_contents:
  assumes "atRest (seg q)" "\<forall>msg \<in> set msgs. length msg = unat (msgSizeOf (seg q))"
  shows "\<exists>q'. shiftAll q msgs = Returns q' \<and> atRest (seg q')
           \<and> maxLenOf (seg q') = maxLenOf (seg q)
           \<and> ringContents (seg q')
               = lastN (unat (maxLenOf (seg q))) (ringContents (seg q) @ msgs)"
  using assms
proof (induction msgs arbitrary: q)
  case Nil
  have "unat (queueLenOf (seg q)) \<le> unat (maxLenOf (seg q))"
    using Nil.prems(1) by (simp add: atRest_def ringInv_def word_le_nat_alt)
  then show ?case using Nil.prems(1) by (simp add: lastN_def)
next
  case (Cons msg msgs)
  from Cons.prems have len: "length msg = unat (msgSizeOf (seg q))" by simp
  from EnqueueShift_contents [OF Cons.prems(1) len]
  obtain q1 where q1: "EnqueueShift q msg = Returns q1" "atRest (seg q1)"
    "maxLenOf (seg q1) = maxLenOf (seg q)" "msgSizeOf (seg q1) = msgSizeOf (seg q)"
    "ringContents (seg q1) = lastN (unat (maxLenOf (seg q))) (ringContents (seg q) @ [msg])"
    by blast
  have "\<forall>msg \<in> set msgs. length msg = unat (msgSizeOf (seg q1))"
    using Cons.prems(2) q1(4) by simp
  from Cons.IH [OF q1(2) this]
  obtain q' where q': "shiftAll q1 msgs = Returns q'" "atRest (seg q')"
    "maxLenOf (seg q') = maxLenOf (seg q1)"
    "ringContents (seg q') = lastN (unat (maxLenOf (seg q1))) (ringContents (seg q1) @ msgs)"
    by blast
  have "ringContents (seg q')
      = lastN (unat (maxLenOf (seg q))) (ringContents (seg q) @ msg # msgs)"
    unfolding q'(4) q1(3) q1(5) by (simp add: lastN_append)
  then show ?case using q1(1,3) q'(1,2,3) by simp
qed

lemma shift_full_step:
  assumes "atRest (seg q)" "maxLenOf (seg q) = 5" "queueLenOf (seg q) = 5"
    and "length msg = unat (msgSizeOf (seg q))"
  shows "EnqueueShift q msg = Returns (q\<lparr>seg := shifted (seg q) msg\<rparr>)"
    "atRest (shifted (seg q) msg)" "maxLenOf (shifted (seg q) msg) = 5"
    "queueLenOf (shifted (seg q) msg) = 5"
    "msgSizeOf (shifted (seg q) msg) = msgSizeOf (seg q)"
    "startIdxOf (shifted (seg q) msg) = (startIdxOf (seg q) + 1) mod 5"
    "j < 5 \<Longrightarrow> slotPayload (shifted (seg q) msg) j
       = (if j = (startIdxOf (seg q) + 5) mod 5 then msg else slotPayload (seg q) j)"
proof -
  note f = shifted_facts [OF assms(1,4)]
  show "EnqueueShift q msg = Returns (q\<lparr>seg := shifted (seg q) msg\<rparr>)"
    using assms(2-4) by (simp add: EnqueueShift_atRest [OF assms(1)])
  show "atRest (shifted (seg q) msg)" by (rule f(5))
  show "maxLenOf (shifted (seg q) msg) = 5" "queueLenOf (shifted (seg q) msg) = 5"
    "msgSizeOf (shifted (seg q) msg) = msgSizeOf (seg q)"
    using f(1,2,4) assms(2,3) by simp_all
  show "startIdxOf (shifted (seg q) msg) = (startIdxOf (seg q) + 1) mod 5"
    using f(3) assms(2) by (simp add: nextStart_def)
  show "slotPayload (shifted (seg q) msg) j
       = (if j = (startIdxOf (seg q) + 5) mod 5 then msg else slotPayload (seg q) j)"
    if "j < 5"
    using f(6) [of j] that assms(2,3) by (simp add: tailIdx_def)
qed

lemma three_shifts:
  assumes "atRest (seg q)" "maxLenOf (seg q) = 5" "startIdxOf (seg q) = 4"
    "queueLenOf (seg q) = 5"
    and "length a = unat (msgSizeOf (seg q))" "length b = unat (msgSizeOf (seg q))"
    "length c = unat (msgSizeOf (seg q))"
  shows "\<exists>q'. shiftAll q [a, b, c] = Returns q'
           \<and> getStartIdx (seg q') = Returns 2 \<and> getQueueLen (seg q') = Returns 5
           \<and> slotPayload (seg q') 4 = a \<and> slotPayload (seg q') 0 = b
           \<and> slotPayload (seg q') 1 = c
           \<and> slotPayload (seg q') 2 = slotPayload (seg q) 2
           \<and> slotPayload (seg q') 3 = slotPayload (seg q) 3"
proof -
  let ?q1 = "q\<lparr>seg := shifted (seg q) a\<rparr>"
  let ?q2 = "?q1\<lparr>seg := shifted (seg ?q1) b\<rparr>"
  let ?q3 = "?q2\<lparr>seg := shifted (seg ?q2) c\<rparr>"
  note s1 = shift_full_step [OF assms(1,2,4,5)]
  have r1: "atRest (seg ?q1)" "maxLenOf (seg ?q1) = 5" "queueLenOf (seg ?q1) = 5"
    "length b = unat (msgSizeOf (seg ?q1))"
    using s1(2-5) assms(6) by simp_all
  note s2 = shift_full_step [OF r1]
  have r2: "atRest (seg ?q2)" "maxLenOf (seg ?q2) = 5" "queueLenOf (seg ?q2) = 5"
    "length c = unat (msgSizeOf (seg ?q2))"
    using s2(2-5) s1(5) assms(7) by simp_all
  note s3 = shift_full_step [OF r2]
  have st1: "startIdxOf (seg ?q1) = 0" using s1(6) assms(3) by simp
  have st2: "startIdxOf (seg ?q2) = 1" using s2(6) st1 by simp
  have st3: "startIdxOf (seg ?q3) = 2" using s3(6) st2 by simp
  have p1: "slotPayload (seg ?q1) j = (if j = 4 then a else slotPayload (seg q) j)"
    if "j < 5" for j using s1(7) [OF that] assms(3) by simp
  have p2: "slotPayload (seg ?q2) j = (if j = 0 then b else slotPayload (seg ?q1) j)"
    if "j < 5" for j using s2(7) [OF that] st1 by simp
  have p3: "slotPayload (seg ?q3) j = (if j = 1 then c else slotPayload (seg ?q2) j)"
    if "j < 5" for j using s3(7) [OF that] st2 by simp
  have run: "shiftAll q [a, b, c] = Returns ?q3"
    using s1(1) s2(1) s3(1) by simp
  have "32 \<le> length (mem (seg ?q3))"
    using s3(2) by (simp add: atRest_def wellSized_header)
  then have g: "getStartIdx (seg ?q3) = Returns 2" "getQueueLen (seg ?q3) = Returns 5"
    using st3 s3(4) by (simp_all add: getters_eq)
  have "slotPayload (seg ?q3) 4 = a" "slotPayload (seg ?q3) 0 = b"
    "slotPayload (seg ?q3) 1 = c" "slotPayload (seg ?q3) 2 = slotPayload (seg q) 2"
    "slotPayload (seg ?q3) 3 = slotPayload (seg q) 3"
    by (simp_all add: p1 [simplified] p2 [simplified] p3 [simplified])
  with run g show ?thesis by blast
qed


lemma shift_step:
  assumes "atRest (seg q)" "length msg = unat (msgSizeOf (seg q))"
  shows "\<exists>q'. EnqueueShift q msg = Returns q'
           \<and> slotPayload (seg q') (tailIdx (seg q)) = msg
           \<and> unat (tailIdx (seg q))
               = (unat (startIdxOf (seg q)) + unat (queueLenOf (seg q)))
                   mod unat (maxLenOf (seg q))
           \<and> (\<forall>j. j < maxLenOf (seg q) \<and> j \<noteq> tailIdx (seg q) \<longrightarrow>
                  slotPayload (seg q') j = slotPayload (seg q) j)
           \<and> (if queueLenOf (seg q) < maxLenOf (seg q)
                then getQueueLen (seg q') = Returns (queueLenOf (seg q) + 1)
                   \<and> getStartIdx (seg q') = Returns (startIdxOf (seg q))
                else getQueueLen (seg q') = Returns (queueLenOf (seg q))
                   \<and> getStartIdx (seg q') = Returns (nextStart (seg q))
                   \<and> unat (nextStart (seg q))
                       = (unat (startIdxOf (seg q)) + 1) mod unat (maxLenOf (seg q)))"
proof (cases "queueLenOf (seg q) < maxLenOf (seg q)")
  case True
  note f = appended_facts [OF assms(1) True assms(2)]
  have "32 \<le> length (mem (appended (seg q) msg))"
    using f(5) by (simp add: atRest_def wellSized_header)
  then show ?thesis
    using True assms(2) f(3,4) f(6) [OF tailIdx_less [OF atRest_nonzero [OF assms(1)]]] f(6)
      tailIdx_nat [OF assms(1)]
    by (simp add: EnqueueShift_atRest [OF assms(1)] getters_eq)
next
  case False
  note f = shifted_facts [OF assms]
  have "32 \<le> length (mem (shifted (seg q) msg))"
    using f(5) by (simp add: atRest_def wellSized_header)
  then show ?thesis
    using False assms(2) f(3,4) f(6) [OF tailIdx_less [OF atRest_nonzero [OF assms(1)]]] f(6)
      tailIdx_nat [OF assms(1)] nextStart_nat [OF assms(1)]
    by (simp add: EnqueueShift_atRest [OF assms(1)] getters_eq)
qed

lemma shifts_from_empty:
  assumes "atRest (seg q)" "queueLenOf (seg q) = 0"
    and "\<forall>msg \<in> set msgs. length msg = unat (msgSizeOf (seg q))"
  shows "\<exists>q'. shiftAll q msgs = Returns q'
           \<and> unat (queueLenOf (seg q')) = min (length msgs) (unat (maxLenOf (seg q)))
           \<and> ringContents (seg q') = drop (length msgs - unat (maxLenOf (seg q))) msgs"
proof -
  from shiftAll_contents [OF assms(1,3)]
  obtain q' where q': "shiftAll q msgs = Returns q'"
    "ringContents (seg q') = lastN (unat (maxLenOf (seg q))) (ringContents (seg q) @ msgs)"
    by blast
  have e: "ringContents (seg q) = []" using assms(2) by (simp add: ringContents_def)
  have c: "ringContents (seg q') = drop (length msgs - unat (maxLenOf (seg q))) msgs"
    unfolding q'(2) e by (simp add: lastN_def)
  have "unat (queueLenOf (seg q')) = length (ringContents (seg q'))" by simp
  also have "\<dots> = min (length msgs) (unat (maxLenOf (seg q)))"
    unfolding c by (simp add: min_def)
  finally show ?thesis using q'(1) c by blast
qed

text \<open>
  Claim C2. On a queue at rest, \<open>EnqueueShift\<close> of a payload of \<open>msg_size\<close> bytes returns
  with the payload in slot \<open>(start_idx + queue_len) mod max_len\<close> and every other slot
  as it was; when \<open>queue_len < max_len\<close> it adds one to \<open>queue_len\<close> and leaves
  \<open>start_idx\<close>, otherwise it sets \<open>start_idx\<close> to \<open>(start_idx + 1) mod max_len\<close> and
  leaves \<open>queue_len\<close>. After the calls for the payloads \<open>msgs\<close> on an empty queue,
  \<open>queue_len\<close> is \<open>min (length msgs) max_len\<close> and the slots read in ring order from
  \<open>start_idx\<close> hold the last that many payloads, in order. Three calls on a full queue
  of capacity 5 with \<open>start_idx = 4\<close> leave \<open>start_idx = 2\<close>, \<open>queue_len = 5\<close>, the three
  payloads in the slots 4, 0 and 1, and the slots 2 and 3 as they were.
\<close>

theorem cyclic_enqueue:
  "(atRest (seg q) \<and> length msg = unat (msgSizeOf (seg q)) \<longrightarrow>
      (\<exists>q'. EnqueueShift q msg = Returns q'
         \<and> slotPayload (seg q') (tailIdx (seg q)) = msg
         \<and> unat (tailIdx (seg q))
             = (unat (startIdxOf (seg q)) + unat (queueLenOf (seg q)))
                 mod unat (maxLenOf (seg q))
         \<and> (\<forall>j. j < maxLenOf (seg q) \<and> j \<noteq> tailIdx (seg q) \<longrightarrow>
                slotPayload (seg q') j = slotPayload (seg q) j)
         \<and> (if queueLenOf (seg q) < maxLenOf (seg q)
              then getQueueLen (seg q') = Returns (queueLenOf (seg q) + 1)
                 \<and> getStartIdx (seg q') = Returns (startIdxOf (seg q))
              else getQueueLen (seg q') = Returns (queueLenOf (seg q))
                 \<and> getStartIdx (seg q') = Returns (nextStart (seg q))
                 \<and> unat (nextStart (seg q))
                     = (unat (startIdxOf (seg q)) + 1) mod unat (maxLenOf (seg q)))))
   \<and> (atRest (seg q) \<and> queueLenOf (seg q) = 0
        \<and> (\<forall>msg \<in> set msgs. length msg = unat (msgSizeOf (seg q))) \<longrightarrow>
      (\<exists>q'. shiftAll q msgs = Returns q'
         \<and> unat (queueLenOf (seg q')) = min (length msgs) (unat (maxLenOf (seg q)))
         \<and> ringContents (seg q') = drop (length msgs - unat (maxLenOf (seg q))) msgs))
   \<and> (atRest (seg q) \<and> maxLenOf (seg q) = 5 \<and> startIdxOf (seg q) = 4
        \<and> queueLenOf (seg q) = 5 \<and> length a = unat (msgSizeOf (seg q))
        \<and> length b = unat (msgSizeOf (seg q)) \<and> length c = unat (msgSizeOf (seg q)) \<longrightarrow>
      (\<exists>q'. shiftAll q [a, b, c] = Returns q'
         \<and> getStartIdx (seg q') = Returns 2 \<and> getQueueLen (seg q') = Returns 5
         \<and> slotPayload (seg q') 4 = a \<and> slotPayload (seg q') 0 = b
         \<and> slotPayload (seg q') 1 = c
         \<and> slotPayload (seg q') 2 = slotPayload (seg q) 2
         \<and> slotPayload (seg q') 3 = slotPayload (seg q) 3))"
  using shift_step [of q msg] shifts_from_empty [of q msgs] three_shifts [of q a b c]
  by blast

theorem cyclic_enqueue_witness:
  "atRest (seg (testQueue 4 5))
   \<and> length testMsgA = unat (msgSizeOf (seg (testQueue 4 5)))
   \<and> (\<exists>q'. EnqueueShift (testQueue 4 5) testMsgA = Returns q'
          \<and> slotPayload (seg q') 4 = testMsgA
          \<and> getStartIdx (seg q') = Returns 0 \<and> getQueueLen (seg q') = Returns 5)
   \<and> (\<exists>q'. shiftAll (testQueue 4 5) [testMsgA, testMsgB, testMsgC] = Returns q'
          \<and> getStartIdx (seg q') = Returns 2 \<and> getQueueLen (seg q') = Returns 5
          \<and> slotPayload (seg q') 4 = testMsgA \<and> slotPayload (seg q') 0 = testMsgB
          \<and> slotPayload (seg q') 1 = testMsgC
          \<and> slotPayload (seg q') 2 = replicate 16 0
          \<and> slotPayload (seg q') 3 = replicate 16 0)
   \<and> atRest (seg (testQueue 0 0))
   \<and> (\<exists>q'. shiftAll (testQueue 0 0)
               [testMsgA, testMsgB, testMsgC, testMsgA, testMsgB, testMsgC] = Returns q'
          \<and> unat (queueLenOf (seg q')) = 5
          \<and> ringContents (seg q') = [testMsgB, testMsgC, testMsgA, testMsgB, testMsgC])"
proof -
  have r: "atRest (seg (testQueue 4 5))" and r0: "atRest (seg (testQueue 0 0))"
    by (simp_all add: testQueue_atRest)
  have len: "length testMsgA = unat (msgSizeOf (seg (testQueue 4 5)))"
    "length testMsgB = unat (msgSizeOf (seg (testQueue 4 5)))"
    "length testMsgC = unat (msgSizeOf (seg (testQueue 4 5)))"
    by (simp_all add: testQueue_fields testMsgA_def testMsgB_def testMsgC_def)
  have len0: "\<forall>msg \<in> set [testMsgA, testMsgB, testMsgC, testMsgA, testMsgB, testMsgC].
      length msg = unat (msgSizeOf (seg (testQueue 0 0)))"
    by (simp add: testQueue_fields testMsgA_def testMsgB_def testMsgC_def)
  have t: "tailIdx (seg (testQueue 4 5)) = 4" "nextStart (seg (testQueue 4 5)) = 0"
    using tailIdx_nat [OF r] nextStart_nat [OF r]
    by (simp_all add: testQueue_fields word_unat_eq_iff)
  note c = cyclic_enqueue [of "testQueue 4 5" testMsgA "[]" testMsgA testMsgB testMsgC]
  note c0 = cyclic_enqueue [of "testQueue 0 0" testMsgA
      "[testMsgA, testMsgB, testMsgC, testMsgA, testMsgB, testMsgC]" testMsgA testMsgB testMsgC]
  have a: "\<exists>q'. EnqueueShift (testQueue 4 5) testMsgA = Returns q'
          \<and> slotPayload (seg q') 4 = testMsgA
          \<and> getStartIdx (seg q') = Returns 0 \<and> getQueueLen (seg q') = Returns 5"
    using c r len(1) by (auto simp add: t testQueue_fields)
  have b: "\<exists>q'. shiftAll (testQueue 4 5) [testMsgA, testMsgB, testMsgC] = Returns q'
          \<and> getStartIdx (seg q') = Returns 2 \<and> getQueueLen (seg q') = Returns 5
          \<and> slotPayload (seg q') 4 = testMsgA \<and> slotPayload (seg q') 0 = testMsgB
          \<and> slotPayload (seg q') 1 = testMsgC
          \<and> slotPayload (seg q') 2 = replicate 16 0
          \<and> slotPayload (seg q') 3 = replicate 16 0"
    using c r len by (simp add: testQueue_fields testQueue_slots)
  have d: "\<exists>q'. shiftAll (testQueue 0 0)
               [testMsgA, testMsgB, testMsgC, testMsgA, testMsgB, testMsgC] = Returns q'
          \<and> unat (queueLenOf (seg q')) = 5
          \<and> ringContents (seg q') = [testMsgB, testMsgC, testMsgA, testMsgB, testMsgC]"
  proof -
    have q0: "queueLenOf (seg (testQueue 0 0)) = 0" by (simp add: testQueue_fields)
    from c0 r0 q0 len0 have "\<exists>q'. shiftAll (testQueue 0 0)
               [testMsgA, testMsgB, testMsgC, testMsgA, testMsgB, testMsgC] = Returns q'
          \<and> unat (queueLenOf (seg q'))
              = min (length [testMsgA, testMsgB, testMsgC, testMsgA, testMsgB, testMsgC])
                  (unat (maxLenOf (seg (testQueue 0 0))))
          \<and> ringContents (seg q')
              = drop (length [testMsgA, testMsgB, testMsgC, testMsgA, testMsgB, testMsgC]
                       - unat (maxLenOf (seg (testQueue 0 0))))
                  [testMsgA, testMsgB, testMsgC, testMsgA, testMsgB, testMsgC]"
      by blast
    moreover have "min (length [testMsgA, testMsgB, testMsgC, testMsgA, testMsgB, testMsgC])
                  (unat (maxLenOf (seg (testQueue 0 0)))) = 5"
      "drop (length [testMsgA, testMsgB, testMsgC, testMsgA, testMsgB, testMsgC]
                       - unat (maxLenOf (seg (testQueue 0 0))))
                  [testMsgA, testMsgB, testMsgC, testMsgA, testMsgB, testMsgC]
         = [testMsgB, testMsgC, testMsgA, testMsgB, testMsgC]"
      by (simp_all add: testQueue_fields)
    ultimately show ?thesis by (simp only:)
  qed
  from r len(1) a b r0 d show ?thesis by blast
qed

end
